theory Spec2Isabelle
  imports Complex_Main "HOL-Library.AList"
begin

section \<open>Hybrid retrieval core: data model\<close>

text \<open>
  The theory embeds the hybrid search engine of \<^verbatim>\<open>src/search\<close>
  (\<^verbatim>\<open>preprocessing.py\<close>, \<^verbatim>\<open>bm25.py\<close>, \<^verbatim>\<open>semantic.py\<close>, \<^verbatim>\<open>fusion.py\<close>,
  \<^verbatim>\<open>hybrid.py\<close>). Python floats are modelled as exact reals, Python strings as
  \<open>string\<close> (ASCII), a \<^verbatim>\<open>dict\<close> whose iteration order the code relies on as an
  association list in insertion order, and every \<^verbatim>\<open>raise\<close> as a value \<open>Inl e\<close> of
  a sum type.
\<close>

datatype error = TypeError | ZeroDivisionError | KeyError | ValueError | IndexError

text \<open>
  \<^verbatim>\<open>src/models.py\<close> is imported by every module but its text is not part of the
  sources; the three classes below carry the fields the modules read and write
  (\<^verbatim>\<open>Document.id\<close> is \<open>doc_id\<close>, \<^verbatim>\<open>Query.text\<close> is \<open>query_text\<close>, \<^verbatim>\<open>Query.k\<close>
  is \<open>query_k\<close>). The component scores of a \<^verbatim>\<open>SearchResult\<close> default to 0, and
  \<^verbatim>\<open>Query(text=t)\<close> sets \<^verbatim>\<open>original_text\<close> to \<^verbatim>\<open>t\<close> and \<^verbatim>\<open>expanded_terms\<close> to the
  empty list (\<^verbatim>\<open>tests/test_models.py\<close>).
\<close>

record Document =
  doc_id :: string
  title :: string
  content :: string
  tokens :: "string list"
  embedding :: "real list option"
  metadata :: "(string \<times> string) list"

record SearchResult =
  document :: Document
  score :: real
  bm25_score :: real
  semantic_score :: real
  expansion_score :: real

record Query =
  query_text :: string
  original_text :: string
  query_k :: int
  min_score :: real
  filters :: "(string \<times> string) list"
  expanded_terms :: "string list"

definition new_SearchResult :: "Document \<Rightarrow> real \<Rightarrow> SearchResult" where
  "new_SearchResult d s =
     \<lparr>document = d, score = s, bm25_score = 0, semantic_score = 0, expansion_score = 0\<rparr>"

definition new_Query :: "string \<Rightarrow> int \<Rightarrow> real \<Rightarrow> (string \<times> string) list \<Rightarrow> Query" where
  "new_Query t k ms fs =
     \<lparr>query_text = t, original_text = t, query_k = k, min_score = ms, filters = fs,
      expanded_terms = []\<rparr>"

section \<open>Score normalisation (fusion.py, ScoreNormalizer)\<close>

text \<open>
  \<^verbatim>\<open>np.min\<close> and \<^verbatim>\<open>np.max\<close> of a non-empty array, as left folds. The empty
  array is never passed: \<^verbatim>\<open>min_max_normalize\<close> returns before it reads them.
\<close>

fun np_min :: "real list \<Rightarrow> real" where
  "np_min [] = 0"
| "np_min (x # xs) = fold min xs x"

fun np_max :: "real list \<Rightarrow> real" where
  "np_max [] = 0"
| "np_max (x # xs) = fold max xs x"

text \<open>
  \<^verbatim>\<open>min_max_normalize\<close>: the empty list is returned at once; a constant list maps
  to all ones; otherwise every score is rescaled by \<open>(x - min) / (max - min)\<close>.
\<close>

definition min_max_normalize :: "real list \<Rightarrow> real list" where
  "min_max_normalize scores =
     (if scores = [] then []
      else
        let min_score = np_min scores;
            max_score = np_max scores
        in if max_score = min_score then replicate (length scores) 1
           else map (\<lambda>x. (x - min_score) / (max_score - min_score)) scores)"

section \<open>Text normaliser (preprocessing.py)\<close>

text \<open>
  The capabilities the normaliser takes from outside the repository: NLTK's
  \<^verbatim>\<open>word_tokenize\<close>, \<^verbatim>\<open>WordNetLemmatizer.lemmatize\<close>, \<^verbatim>\<open>PorterStemmer.stem\<close> and
  \<^verbatim>\<open>stopwords.words('english')\<close>, and the four \<^verbatim>\<open>re.sub\<close> calls of \<^verbatim>\<open>_remove_html\<close>,
  \<^verbatim>\<open>_remove_urls\<close>, \<^verbatim>\<open>_remove_emails\<close> and the punctuation pattern. They are
  parameters of the model.
\<close>

record nlp =
  word_tokenize :: "string \<Rightarrow> string list"
  lemmatize_word :: "string \<Rightarrow> string"
  stem_word :: "string \<Rightarrow> string"
  stopwords_english :: "string list"
  re_sub_html :: "string \<Rightarrow> string"
  re_sub_urls :: "string \<Rightarrow> string"
  re_sub_emails :: "string \<Rightarrow> string"
  re_sub_punct :: "string \<Rightarrow> string"

text \<open>\<^verbatim>\<open>str.lower\<close>, \<^verbatim>\<open>str.isalpha\<close>, \<^verbatim>\<open>string.punctuation\<close> and \<^verbatim>\<open>a in b\<close> on strings.\<close>

definition is_upper :: "char \<Rightarrow> bool" where
  "is_upper c = (65 \<le> (of_char c :: nat) \<and> (of_char c :: nat) \<le> 90)"

definition is_letter :: "char \<Rightarrow> bool" where
  "is_letter c = (is_upper c \<or> (97 \<le> (of_char c :: nat) \<and> (of_char c :: nat) \<le> 122))"

definition str_lower :: "string \<Rightarrow> string" where
  "str_lower s = map (\<lambda>c. if is_upper c then char_of ((of_char c :: nat) + 32) else c) s"

definition isalpha :: "string \<Rightarrow> bool" where
  "isalpha s = (s \<noteq> [] \<and> list_all is_letter s)"

definition punctuation :: string where
  "punctuation = map char_of ([33..<48] @ [58..<65] @ [91..<97] @ [123..<127] :: nat list)"

fun substring :: "string \<Rightarrow> string \<Rightarrow> bool" where
  "substring xs [] = (xs = [])"
| "substring xs (y # ys) = (take (length xs) (y # ys) = xs \<or> substring xs ys)"

text \<open>
  The \<^verbatim>\<open>preprocessing\<close> section of the configuration dictionary (a missing key is
  \<open>None\<close>) and \<^verbatim>\<open>TextPreprocessor.__init__\<close>, which reads it with the defaults of
  the source. The stopword set is fixed here, once, from \<^verbatim>\<open>remove_stopwords\<close>.
\<close>

record preprocessing_config =
  cfg_lowercase :: "bool option"
  cfg_remove_stopwords :: "bool option"
  cfg_remove_punctuation :: "bool option"
  cfg_lemmatize :: "bool option"
  cfg_min_word_length :: "int option"
  cfg_max_word_length :: "int option"

record TextPreprocessor =
  lowercase :: bool
  remove_stopwords :: bool
  remove_punctuation :: bool
  lemmatize :: bool
  min_word_length :: int
  max_word_length :: int
  stop_words :: "string list"

definition get_default :: "'a option \<Rightarrow> 'a \<Rightarrow> 'a" where
  "get_default v d = (case v of None \<Rightarrow> d | Some x \<Rightarrow> x)"

definition TextPreprocessor_init :: "nlp \<Rightarrow> preprocessing_config \<Rightarrow> TextPreprocessor" where
  "TextPreprocessor_init ext cfg =
     \<lparr>lowercase = get_default (cfg_lowercase cfg) True,
      remove_stopwords = get_default (cfg_remove_stopwords cfg) True,
      remove_punctuation = get_default (cfg_remove_punctuation cfg) True,
      lemmatize = get_default (cfg_lemmatize cfg) True,
      min_word_length = get_default (cfg_min_word_length cfg) 2,
      max_word_length = get_default (cfg_max_word_length cfg) 50,
      stop_words =
        (if get_default (cfg_remove_stopwords cfg) True then stopwords_english ext else [])\<rparr>"

text \<open>
  \<^verbatim>\<open>_filter_tokens\<close>: the loop over the tokens, one \<^verbatim>\<open>continue\<close> per test, in the
  order of the source. The stopword test reads \<^verbatim>\<open>self.stop_words\<close>.
\<close>

fun filter_tokens :: "nlp \<Rightarrow> TextPreprocessor \<Rightarrow> string list \<Rightarrow> string list" where
  "filter_tokens ext self [] = []"
| "filter_tokens ext self (token # rest) =
     (if substring token punctuation then filter_tokens ext self rest
      else if token \<in> set (stop_words self) then filter_tokens ext self rest
      else if int (length token) < min_word_length self
              \<or> int (length token) > max_word_length self then filter_tokens ext self rest
      else if \<not> isalpha token then filter_tokens ext self rest
      else (if lemmatize self then lemmatize_word ext token else stem_word ext token)
             # filter_tokens ext self rest)"

definition preprocess :: "nlp \<Rightarrow> TextPreprocessor \<Rightarrow> string \<Rightarrow> string list" where
  "preprocess ext self txt =
     (if txt = [] then []
      else
        let t1 = re_sub_html ext txt;
            t2 = (if lowercase self then str_lower t1 else t1);
            t3 = re_sub_urls ext t2;
            t4 = re_sub_emails ext t3;
            t5 = (if remove_punctuation self then re_sub_punct ext t4 else t4)
        in filter_tokens ext self (word_tokenize ext t5))"

text \<open>
  \<^verbatim>\<open>QueryPreprocessor.preprocess\<close>: the flag \<^verbatim>\<open>remove_stopwords\<close> is cleared, the
  inherited \<^verbatim>\<open>preprocess\<close> runs, and the flag is restored. The object is returned
  with the tokens, since the method assigns to it.
\<close>

definition query_preprocess ::
  "nlp \<Rightarrow> TextPreprocessor \<Rightarrow> string \<Rightarrow> string list \<times> TextPreprocessor" where
  "query_preprocess ext self txt =
     (if txt = [] then ([], self)
      else
        let original_remove_stopwords = remove_stopwords self;
            self1 = self\<lparr>remove_stopwords := False\<rparr>;
            toks = preprocess ext self1 txt;
            self2 = self1\<lparr>remove_stopwords := original_remove_stopwords\<rparr>
        in (toks, self2))"

text \<open>
  The query mode as the specification words it: the document pipeline, except
  that no token is dropped for being a stopword.
\<close>

definition spec_query_normalize :: "nlp \<Rightarrow> TextPreprocessor \<Rightarrow> string \<Rightarrow> string list" where
  "spec_query_normalize ext self txt = preprocess ext (self\<lparr>stop_words := []\<rparr>) txt"

section \<open>Lexical index (bm25.py)\<close>

text \<open>
  \<^verbatim>\<open>BM25Indexer\<close>. The dictionaries \<^verbatim>\<open>documents\<close> and \<^verbatim>\<open>doc_lengths\<close> are
  association lists in insertion order; \<^verbatim>\<open>d[k] = v\<close> is \<open>AList.update\<close>, which
  replaces the value of a key that is present and appends a new key at the end.
\<close>

record BM25Indexer =
  preprocessor :: TextPreprocessor
  documents :: "(string \<times> Document) list"
  tokenized_corpus :: "string list list"
  doc_ids :: "string list"
  doc_lengths :: "(string \<times> nat) list"
  avg_doc_length :: real

definition BM25Indexer_init :: "TextPreprocessor \<Rightarrow> BM25Indexer" where
  "BM25Indexer_init pre =
     \<lparr>preprocessor = pre, documents = [], tokenized_corpus = [], doc_ids = [],
      doc_lengths = [], avg_doc_length = 0\<rparr>"

definition update_avg_length :: "BM25Indexer \<Rightarrow> BM25Indexer" where
  "update_avg_length self =
     (if doc_lengths self \<noteq> []
      then self\<lparr>avg_doc_length :=
             real (sum_list (map snd (doc_lengths self))) / real (length (doc_lengths self))\<rparr>
      else self)"

definition add_document :: "nlp \<Rightarrow> BM25Indexer \<Rightarrow> Document \<Rightarrow> BM25Indexer" where
  "add_document ext self doc =
     (if map_of (documents self) (doc_id doc) \<noteq> None then self
      else
        let toks = preprocess ext (preprocessor self) (content doc);
            doc1 = doc\<lparr>tokens := toks\<rparr>
        in update_avg_length
             (self\<lparr>documents := AList.update (doc_id doc) doc1 (documents self),
                   doc_ids := doc_ids self @ [doc_id doc],
                   tokenized_corpus := tokenized_corpus self @ [toks],
                   doc_lengths := AList.update (doc_id doc) (length toks) (doc_lengths self)\<rparr>))"

fun add_documents :: "nlp \<Rightarrow> BM25Indexer \<Rightarrow> Document list \<Rightarrow> BM25Indexer" where
  "add_documents ext self [] = self"
| "add_documents ext self (doc # docs) = add_documents ext (add_document ext self doc) docs"


text \<open>
  \<^verbatim>\<open>BM25Searcher\<close>. The scorer \<^verbatim>\<open>BM25Okapi\<close> comes from the library
  \<^verbatim>\<open>rank_bm25\<close>: its constructor is the parameter \<open>okapi\<close>, which returns a
  model of type \<open>'m\<close> or raises.
\<close>

record 'm BM25Searcher =
  bm25_k1 :: real
  bm25_b :: real
  bm25_epsilon :: real
  indexer :: BM25Indexer
  bm25_model :: "'m option"

record bm25_config =
  cfg_k1 :: "real option"
  cfg_b :: "real option"
  cfg_epsilon :: "real option"

definition BM25Searcher_init :: "bm25_config \<Rightarrow> TextPreprocessor \<Rightarrow> 'm BM25Searcher" where
  "BM25Searcher_init cfg pre =
     \<lparr>bm25_k1 = get_default (cfg_k1 cfg) 1.5,
      bm25_b = get_default (cfg_b cfg) 0.75,
      bm25_epsilon = get_default (cfg_epsilon cfg) 0.25,
      indexer = BM25Indexer_init pre,
      bm25_model = None\<rparr>"

definition bm25_index_documents ::
  "(string list list \<Rightarrow> real \<Rightarrow> real \<Rightarrow> real \<Rightarrow> error + 'm) \<Rightarrow> nlp \<Rightarrow>
   'm BM25Searcher \<Rightarrow> Document list \<Rightarrow> error + 'm BM25Searcher" where
  "bm25_index_documents okapi ext self docs =
     (let self1 = self\<lparr>indexer := add_documents ext (indexer self) docs\<rparr>
      in if tokenized_corpus (indexer self1) \<noteq> []
         then (case okapi (tokenized_corpus (indexer self1))
                      (bm25_k1 self1) (bm25_b self1) (bm25_epsilon self1) of
                 Inl e \<Rightarrow> Inl e
               | Inr m \<Rightarrow> Inr (self1\<lparr>bm25_model := Some m\<rparr>))
         else Inr self1)"



text \<open>
  A lexical searcher is in an indexed state when its parallel structures have
  one entry per document and the model is missing only for an empty corpus:
  the states that \<^verbatim>\<open>index_documents\<close> leaves.
\<close>

definition indexed_state :: "'m BM25Searcher \<Rightarrow> bool" where
  "indexed_state self =
     ((bm25_model self = None \<longrightarrow> tokenized_corpus (indexer self) = [])
      \<and> length (documents (indexer self)) = length (tokenized_corpus (indexer self)))"

section \<open>Vector index (semantic.py)\<close>

text \<open>
  \<^verbatim>\<open>EmbeddingGenerator\<close>. The sentence-transformer model is outside the
  repository: \<open>encode_many\<close> is its \<^verbatim>\<open>encode\<close> on a list of texts, one row per
  text. A vector is a list of reals; the cache is a map keyed by the text.
\<close>

record EmbeddingGenerator =
  batch_size :: nat
  embedding_dim :: nat
  embedding_cache :: "string \<rightharpoonup> real list"
  cache_enabled :: bool

text \<open>
  \<^verbatim>\<open>__init__\<close> takes the batch size and the cache switch from the configuration
  (defaults 32 and \<^verbatim>\<open>True\<close>) and the dimension from the model, and starts with
  an empty cache.
\<close>

definition EmbeddingGenerator_init :: "nat option \<Rightarrow> nat \<Rightarrow> bool option \<Rightarrow> EmbeddingGenerator" where
  "EmbeddingGenerator_init cfg_batch_size model_dim cfg_cache_embeddings =
     \<lparr>batch_size = get_default cfg_batch_size 32, embedding_dim = model_dim,
      embedding_cache = Map.empty, cache_enabled = get_default cfg_cache_embeddings True\<rparr>"

text \<open>
  \<^verbatim>\<open>encode\<close>: a cached vector is returned as it is; otherwise the model embeds
  the text (\<open>encode_one\<close> is the model's \<^verbatim>\<open>encode\<close> on one text) and an enabled
  cache stores the vector.
\<close>

definition encode ::
  "(string \<Rightarrow> real list) \<Rightarrow> EmbeddingGenerator \<Rightarrow> string \<Rightarrow> real list \<times> EmbeddingGenerator" where
  "encode encode_one self t =
     (case (if cache_enabled self then embedding_cache self t else None) of
        Some e \<Rightarrow> (e, self)
      | None \<Rightarrow>
          let e = encode_one t
          in (e, if cache_enabled self
                 then self\<lparr>embedding_cache := (embedding_cache self)(t \<mapsto> e)\<rparr> else self))"

text \<open>
  The first loop of \<^verbatim>\<open>encode_batch\<close>: position \<open>i\<close> is a cache hit when the
  cache is enabled and holds the text, and a miss otherwise. The accumulator is
  \<^verbatim>\<open>(cached_embeddings, uncached_texts, uncached_indices)\<close>.
\<close>

fun check_cache ::
  "EmbeddingGenerator \<Rightarrow> nat \<Rightarrow> string list \<Rightarrow>
   (nat \<times> real list) list \<times> string list \<times> nat list \<Rightarrow>
   (nat \<times> real list) list \<times> string list \<times> nat list" where
  "check_cache self i [] acc = acc"
| "check_cache self i (t # ts) (cached_embeddings, uncached_texts, uncached_indices) =
     (case (if cache_enabled self then embedding_cache self t else None) of
        Some e \<Rightarrow>
          check_cache self (Suc i) ts
            (cached_embeddings @ [(i, e)], uncached_texts, uncached_indices)
      | None \<Rightarrow>
          check_cache self (Suc i) ts
            (cached_embeddings, uncached_texts @ [t], uncached_indices @ [i]))"

text \<open>The test of the first loop of \<^verbatim>\<open>encode_batch\<close>, as a predicate on the text.\<close>

definition cache_hit :: "EmbeddingGenerator \<Rightarrow> string \<Rightarrow> bool" where
  "cache_hit g t = (cache_enabled g \<and> embedding_cache g t \<noteq> None)"

text \<open>
  \<^verbatim>\<open>embeddings[i] = emb\<close> on the \<^verbatim>\<open>(len(texts), embedding_dim)\<close> array of zeros:
  numpy stores a row of the right length, broadcasts a row of length 1, and
  raises \<^verbatim>\<open>ValueError\<close> on any other length.
\<close>

definition set_row :: "nat \<Rightarrow> real list list \<Rightarrow> nat \<Rightarrow> real list \<Rightarrow> error + real list list" where
  "set_row ncols embeddings i emb =
     (if length embeddings \<le> i then Inl IndexError
      else if length emb = ncols then Inr (embeddings[i := emb])
      else if length emb = 1 then Inr (embeddings[i := replicate ncols (hd emb)])
      else Inl ValueError)"

fun assign_rows ::
  "nat \<Rightarrow> (nat \<times> real list) list \<Rightarrow> real list list \<Rightarrow> error + real list list" where
  "assign_rows ncols [] embeddings = Inr embeddings"
| "assign_rows ncols ((i, emb) # rest) embeddings =
     (case set_row ncols embeddings i emb of
        Inl e \<Rightarrow> Inl e
      | Inr embeddings1 \<Rightarrow> assign_rows ncols rest embeddings1)"

definition cache_store ::
  "(string \<rightharpoonup> real list) \<Rightarrow> (string \<times> real list) list \<Rightarrow> (string \<rightharpoonup> real list)" where
  "cache_store cache pairs = fold (\<lambda>(t, e) c. c(t \<mapsto> e)) pairs cache"

text \<open>
  \<^verbatim>\<open>encode_batch\<close>. The result carries, with the embeddings and the generator
  (whose cache the method fills), the list of the model's invocations: the
  argument of each \<^verbatim>\<open>self.model.encode\<close> call, in order.
\<close>

definition encode_batch ::
  "(string list \<Rightarrow> real list list) \<Rightarrow> EmbeddingGenerator \<Rightarrow> string list \<Rightarrow>
   error + (real list list \<times> EmbeddingGenerator \<times> string list list)" where
  "encode_batch encode_many self texts =
     (case check_cache self 0 texts ([], [], []) of
        (cached_embeddings, uncached_texts, uncached_indices) \<Rightarrow>
          let new_embeddings = (if uncached_texts \<noteq> [] then encode_many uncached_texts else []);
              invoked = (if uncached_texts \<noteq> [] then [uncached_texts] else []);
              self1 = (if uncached_texts \<noteq> [] \<and> cache_enabled self
                       then self\<lparr>embedding_cache :=
                              cache_store (embedding_cache self)
                                (zip uncached_texts new_embeddings)\<rparr>
                       else self);
              zeros = replicate (length texts) (replicate (embedding_dim self) 0)
          in case assign_rows (embedding_dim self) cached_embeddings zeros of
               Inl e \<Rightarrow> Inl e
             | Inr embeddings1 \<Rightarrow>
                 (case assign_rows (embedding_dim self)
                         (zip uncached_indices new_embeddings) embeddings1 of
                    Inl e \<Rightarrow> Inl e
                  | Inr embeddings2 \<Rightarrow> Inr (embeddings2, self1, invoked)))"

text \<open>
  \<^verbatim>\<open>VectorIndex\<close>: the FAISS index is the list of the vectors added to it, and
  \<^verbatim>\<open>doc_ids\<close> the parallel list of document ids. \<^verbatim>\<open>add_vectors\<close> trains an
  untrained IVF index, then appends the vectors and the ids.
\<close>

record VectorIndex =
  index_type :: string
  index_vectors :: "real list list"
  vi_doc_ids :: "string list"
  is_trained :: bool

definition add_vectors :: "VectorIndex \<Rightarrow> real list list \<Rightarrow> string list \<Rightarrow> VectorIndex" where
  "add_vectors self vectors ids =
     (let self1 = (if \<not> is_trained self \<and> index_type self = ''IndexIVFFlat''
                   then self\<lparr>is_trained := True\<rparr> else self)
      in self1\<lparr>index_vectors := index_vectors self1 @ vectors,
               vi_doc_ids := vi_doc_ids self1 @ ids\<rparr>)"

record SemanticSearcher =
  embedding_generator :: EmbeddingGenerator
  vector_index :: VectorIndex
  sem_documents :: "(string \<times> Document) list"

definition store_documents ::
  "(Document \<times> real list) list \<Rightarrow> (string \<times> Document) list \<Rightarrow> (string \<times> Document) list" where
  "store_documents pairs docs =
     fold (\<lambda>(doc, emb) ds. AList.update (doc_id doc) (doc\<lparr>embedding := Some emb\<rparr>) ds) pairs docs"

text \<open>
  \<^verbatim>\<open>SemanticSearcher.index_documents\<close>: nothing for the empty list; otherwise
  the contents are embedded, the vectors and ids are added to the vector index,
  and every document is stored under its id.
\<close>

definition semantic_index_documents ::
  "(string list \<Rightarrow> real list list) \<Rightarrow> SemanticSearcher \<Rightarrow> Document list \<Rightarrow>
   error + SemanticSearcher" where
  "semantic_index_documents encode_many self docs =
     (if docs = [] then Inr self
      else
        case encode_batch encode_many (embedding_generator self) (map content docs) of
          Inl e \<Rightarrow> Inl e
        | Inr (embeddings, gen1, invoked) \<Rightarrow>
            Inr (self\<lparr>embedding_generator := gen1,
                      vector_index := add_vectors (vector_index self) embeddings (map doc_id docs),
                      sem_documents := store_documents (zip docs embeddings) (sem_documents self)\<rparr>))"

section \<open>Result fusion (fusion.py, ResultFusion)\<close>

text \<open>
  The \<^verbatim>\<open>hybrid\<close> section of the configuration and \<^verbatim>\<open>ResultFusion.__init__\<close>.
  The constructor stores the configured flag in the instance attribute
  \<^verbatim>\<open>self.normalize_scores\<close> (default \<^verbatim>\<open>True\<close>) and reads the RRF constant from the
  key \<^verbatim>\<open>k\<close> (default 10).
\<close>

record hybrid_config =
  cfg_fusion_strategy :: "string option"
  cfg_normalize_scores :: "bool option"
  cfg_bm25_weight :: "real option"
  cfg_semantic_weight :: "real option"
  cfg_expansion_weight :: "real option"
  cfg_k :: "real option"

record ResultFusion =
  fusion_strategy :: string
  normalize_scores :: bool
  bm25_weight :: real
  semantic_weight :: real
  expansion_weight :: real
  k_rrf :: real

definition ResultFusion_init :: "hybrid_config \<Rightarrow> ResultFusion" where
  "ResultFusion_init cfg =
     \<lparr>fusion_strategy = get_default (cfg_fusion_strategy cfg) ''weighted'',
      normalize_scores = get_default (cfg_normalize_scores cfg) True,
      bm25_weight = get_default (cfg_bm25_weight cfg) 0.4,
      semantic_weight = get_default (cfg_semantic_weight cfg) 0.6,
      expansion_weight = get_default (cfg_expansion_weight cfg) 0.2,
      k_rrf = get_default (cfg_k cfg) 10\<rparr>"

definition default_hybrid_config :: hybrid_config where
  "default_hybrid_config =
     \<lparr>cfg_fusion_strategy = None, cfg_normalize_scores = None, cfg_bm25_weight = None,
      cfg_semantic_weight = None, cfg_expansion_weight = None, cfg_k = None\<rparr>"

text \<open>
  The method \<^verbatim>\<open>normalize_scores\<close> that the class defines (lines 128 to 151):
  the scores of a non-empty list are replaced by their min-max normalisation.
\<close>

definition normalize_scores_method :: "SearchResult list \<Rightarrow> SearchResult list" where
  "normalize_scores_method results =
     (if results = [] then results
      else map (\<lambda>(result, norm_score). result\<lparr>score := norm_score\<rparr>)
             (zip results (min_max_normalize (map score results))))"

text \<open>
  The expression \<^verbatim>\<open>self.normalize_scores(results.copy())\<close> of \<^verbatim>\<open>_weighted_fusion\<close>.
  Attribute lookup on an instance finds an instance attribute before a method
  of the class. The constructor always stores the flag under the name
  \<^verbatim>\<open>normalize_scores\<close>, so the lookup yields that \<^verbatim>\<open>bool\<close> and never the method;
  applying a \<^verbatim>\<open>bool\<close> to an argument raises \<^verbatim>\<open>TypeError\<close>
  (\<^verbatim>\<open>'bool' object is not callable\<close>).
\<close>

datatype py_attr = Bool_attr bool | Method_attr

definition self_normalize_scores :: "ResultFusion \<Rightarrow> py_attr" where
  "self_normalize_scores self = Bool_attr (normalize_scores self)"

definition call_attr :: "py_attr \<Rightarrow> SearchResult list \<Rightarrow> error + SearchResult list" where
  "call_attr a results =
     (case a of
        Bool_attr b \<Rightarrow> Inl TypeError
      | Method_attr \<Rightarrow> Inr (normalize_scores_method results))"

text \<open>
  The body of the inner loop of \<^verbatim>\<open>_weighted_fusion\<close> for one result: a document
  seen for the first time gets a new entry with the weighted score and the
  result's component scores; a document already present has the weighted score
  added and each positive component score overwritten.
\<close>

definition weighted_add ::
  "real \<Rightarrow> (string \<times> SearchResult) list \<Rightarrow> SearchResult \<Rightarrow> (string \<times> SearchResult) list" where
  "weighted_add weight fused_results result =
     (let did = doc_id (document result)
      in case map_of fused_results did of
           None \<Rightarrow>
             AList.update did
               \<lparr>document = document result, score = score result * weight,
                bm25_score = bm25_score result, semantic_score = semantic_score result,
                expansion_score = expansion_score result\<rparr> fused_results
         | Some old \<Rightarrow>
             AList.update did
               (old\<lparr>score := score old + score result * weight,
                    bm25_score :=
                      (if bm25_score result > 0 then bm25_score result else bm25_score old),
                    semantic_score :=
                      (if semantic_score result > 0 then semantic_score result
                       else semantic_score old),
                    expansion_score :=
                      (if expansion_score result > 0 then expansion_score result
                       else expansion_score old)\<rparr>) fused_results)"

text \<open>The outer loop over \<^verbatim>\<open>zip(result_sets, weights)\<close>.\<close>

fun weighted_loop ::
  "ResultFusion \<Rightarrow> (SearchResult list \<times> real) list \<Rightarrow> (string \<times> SearchResult) list \<Rightarrow>
   error + (string \<times> SearchResult) list" where
  "weighted_loop self [] fused_results = Inr fused_results"
| "weighted_loop self ((results, weight) # rest) fused_results =
     (case (if normalize_scores self then call_attr (self_normalize_scores self) results
            else Inr results) of
        Inl e \<Rightarrow> Inl e
      | Inr results1 \<Rightarrow>
          weighted_loop self rest (fold (\<lambda>r acc. weighted_add weight acc r) results1 fused_results))"

text \<open>
  \<^verbatim>\<open>list.sort(key=lambda x: x.score, reverse=True)\<close>: a stable sort, descending
  by score.
\<close>

definition sort_by_score_desc :: "SearchResult list \<Rightarrow> SearchResult list" where
  "sort_by_score_desc rs = sort_key (\<lambda>r. - score r) rs"

definition fusion_weights :: "ResultFusion \<Rightarrow> nat \<Rightarrow> real list" where
  "fusion_weights self n =
     (let weights = take n [bm25_weight self, semantic_weight self, expansion_weight self];
          total_weight = sum_list weights
      in if total_weight > 0 then map (\<lambda>w. w / total_weight) weights else weights)"

definition weighted_fusion :: "ResultFusion \<Rightarrow> SearchResult list list \<Rightarrow> error + SearchResult list" where
  "weighted_fusion self result_sets =
     (case weighted_loop self (zip result_sets (fusion_weights self (length result_sets))) [] of
        Inl e \<Rightarrow> Inl e
      | Inr fused_results \<Rightarrow> Inr (sort_by_score_desc (map snd fused_results)))"

text \<open>
  \<^verbatim>\<open>_reciprocal_rank_fusion\<close>. The inner loop runs over \<^verbatim>\<open>enumerate(results,
  start=1)\<close>; the division \<^verbatim>\<open>1.0 / (self.k_rrf + rank)\<close> raises
  \<^verbatim>\<open>ZeroDivisionError\<close> when the sum is 0. The state is the pair of dictionaries
  \<^verbatim>\<open>(rrf_scores, documents)\<close>.
\<close>

fun rrf_inner ::
  "real \<Rightarrow> nat \<Rightarrow> SearchResult list \<Rightarrow>
   (string \<times> real) list \<times> (string \<times> Document) list \<Rightarrow>
   error + (string \<times> real) list \<times> (string \<times> Document) list" where
  "rrf_inner kr rank [] st = Inr st"
| "rrf_inner kr rank (result # rest) (rrf_scores, docs) =
     (if kr + real rank = 0 then Inl ZeroDivisionError
      else
        let did = doc_id (document result);
            rrf_score = 1 / (kr + real rank)
        in case map_of rrf_scores did of
             None \<Rightarrow>
               rrf_inner kr (Suc rank) rest
                 (AList.update did rrf_score rrf_scores, AList.update did (document result) docs)
           | Some old \<Rightarrow>
               rrf_inner kr (Suc rank) rest
                 (AList.update did (old + rrf_score) rrf_scores, docs))"

fun rrf_outer ::
  "real \<Rightarrow> SearchResult list list \<Rightarrow>
   (string \<times> real) list \<times> (string \<times> Document) list \<Rightarrow>
   error + (string \<times> real) list \<times> (string \<times> Document) list" where
  "rrf_outer kr [] st = Inr st"
| "rrf_outer kr (results # rest) st =
     (case rrf_inner kr 1 results st of
        Inl e \<Rightarrow> Inl e
      | Inr st1 \<Rightarrow> rrf_outer kr rest st1)"

text \<open>The loop that builds one \<^verbatim>\<open>SearchResult\<close> per entry of \<^verbatim>\<open>rrf_scores\<close>.\<close>

fun rrf_results ::
  "(string \<times> Document) list \<Rightarrow> (string \<times> real) list \<Rightarrow> error + SearchResult list" where
  "rrf_results docs [] = Inr []"
| "rrf_results docs ((did, s) # rest) =
     (case map_of docs did of
        None \<Rightarrow> Inl KeyError
      | Some d \<Rightarrow>
          (case rrf_results docs rest of
             Inl e \<Rightarrow> Inl e
           | Inr rs \<Rightarrow> Inr (new_SearchResult d s # rs)))"

definition reciprocal_rank_fusion ::
  "ResultFusion \<Rightarrow> SearchResult list list \<Rightarrow> error + SearchResult list" where
  "reciprocal_rank_fusion self result_sets =
     (case rrf_outer (k_rrf self) result_sets ([], []) of
        Inl e \<Rightarrow> Inl e
      | Inr (rrf_scores, docs) \<Rightarrow>
          (case rrf_results docs rrf_scores of
             Inl e \<Rightarrow> Inl e
           | Inr fused_results \<Rightarrow> Inr (sort_by_score_desc fused_results)))"

text \<open>\<^verbatim>\<open>fuse\<close>: no list, one list, and the dispatch on the strategy.\<close>

definition fuse :: "ResultFusion \<Rightarrow> SearchResult list list \<Rightarrow> error + SearchResult list" where
  "fuse self result_sets =
     (if result_sets = [] then Inr []
      else if length result_sets = 1 then Inr (hd result_sets)
      else if fusion_strategy self = ''weighted'' then weighted_fusion self result_sets
      else if fusion_strategy self = ''rrf'' then reciprocal_rank_fusion self result_sets
      else weighted_fusion self result_sets)"

text \<open>
  The fused total of a document as the specification words it for RRF: the sum,
  over the lists and over the 1-based ranks \<open>r\<close> at which the document stands in
  a list, of \<open>1 / (k_rrf + r)\<close>.
\<close>

fun rank_sum :: "real \<Rightarrow> nat \<Rightarrow> SearchResult list \<Rightarrow> string \<Rightarrow> real" where
  "rank_sum kr rank [] did = 0"
| "rank_sum kr rank (result # rest) did =
     (if doc_id (document result) = did then 1 / (kr + real rank) else 0)
     + rank_sum kr (Suc rank) rest did"

definition rrf_total :: "real \<Rightarrow> SearchResult list list \<Rightarrow> string \<Rightarrow> real" where
  "rrf_total kr result_sets did = sum_list (map (\<lambda>results. rank_sum kr 1 results did) result_sets)"

text \<open>
  Weighted fusion as the specification words it: every list is min-max
  normalised, and a document's fused score is the sum, over its occurrences, of
  the normalised score times the weight of the list.
\<close>

definition spec_weighted_total ::
  "ResultFusion \<Rightarrow> SearchResult list list \<Rightarrow> string \<Rightarrow> real" where
  "spec_weighted_total self result_sets did =
     sum_list (map (\<lambda>(results, weight).
         sum_list (map (\<lambda>r. if doc_id (document r) = did then score r * weight else 0)
                     (normalize_scores_method results)))
       (zip result_sets (fusion_weights self (length result_sets))))"

section \<open>Query expansion aggregator (expansion.py, QueryExpander)\<close>

text \<open>
  A strategy is the \<^verbatim>\<open>expand\<close> method of \<^verbatim>\<open>SynonymExpander\<close> or
  \<^verbatim>\<open>EmbeddingExpander\<close>: it rewrites the query it is given (WordNet and the
  embedding model are outside the repository, so the strategies are parameters)
  or raises. \<^verbatim>\<open>QueryExpander.expand\<close> runs the strategies in turn, collects their
  \<^verbatim>\<open>expanded_terms\<close> and resets the text after each; when a term was found it
  stores the distinct terms and appends them to the original text.
  \<^verbatim>\<open>list(set(terms))\<close> is \<open>remdups\<close>: the order Python gives the distinct terms
  is not fixed, and nothing below depends on it.
\<close>

type_synonym strategy = "Query \<Rightarrow> error + Query"

record QueryExpander =
  enabled :: bool
  expanders :: "strategy list"

fun run_expanders ::
  "string \<Rightarrow> strategy list \<Rightarrow> Query \<Rightarrow> string list \<Rightarrow> error + Query \<times> string list" where
  "run_expanders original [] query all_expanded_terms = Inr (query, all_expanded_terms)"
| "run_expanders original (expander # rest) query all_expanded_terms =
     (case expander query of
        Inl e \<Rightarrow> Inl e
      | Inr expanded_query \<Rightarrow>
          run_expanders original rest (expanded_query\<lparr>query_text := original\<rparr>)
            (all_expanded_terms @ expanded_terms expanded_query))"

fun join_spaces :: "string list \<Rightarrow> string" where
  "join_spaces [] = []"
| "join_spaces [w] = w"
| "join_spaces (w # ws) = w @ '' '' @ join_spaces ws"

definition expand :: "QueryExpander \<Rightarrow> Query \<Rightarrow> error + Query" where
  "expand self query =
     (if \<not> enabled self then Inr query
      else
        case run_expanders (query_text query) (expanders self) query [] of
          Inl e \<Rightarrow> Inl e
        | Inr (query1, all_expanded_terms) \<Rightarrow>
            if all_expanded_terms \<noteq> []
            then
              let unique_expanded = remdups all_expanded_terms
              in Inr (query1\<lparr>expanded_terms := unique_expanded,
                             query_text := query_text query @ '' '' @ join_spaces unique_expanded\<rparr>)
            else Inr query1)"

section \<open>Hybrid orchestrator (hybrid.py, HybridSearch)\<close>

text \<open>
  The orchestrator owns the expander, the two searchers and the fusion engine.
  \<open>bm25_searcher_search\<close> and \<open>semantic_searcher_search\<close> are the \<^verbatim>\<open>search\<close>
  methods of the two searchers on their present indexes (the scorer and the
  nearest-neighbour search are library code); each maps the query it is handed
  to a result list or raises.
\<close>

record HybridSearch =
  query_expander :: QueryExpander
  bm25_searcher_search :: "Query \<Rightarrow> error + SearchResult list"
  semantic_searcher_search :: "Query \<Rightarrow> error + SearchResult list"
  fusion :: ResultFusion
  is_indexed :: bool

text \<open>\<^verbatim>\<open>__init__\<close> builds the components and leaves the engine unindexed.\<close>

definition HybridSearch_init ::
  "QueryExpander \<Rightarrow> (Query \<Rightarrow> error + SearchResult list) \<Rightarrow>
   (Query \<Rightarrow> error + SearchResult list) \<Rightarrow> hybrid_config \<Rightarrow> HybridSearch" where
  "HybridSearch_init qe bm25 sem cfg =
     \<lparr>query_expander = qe, bm25_searcher_search = bm25, semantic_searcher_search = sem,
      fusion = ResultFusion_init cfg, is_indexed = False\<rparr>"

text \<open>\<^verbatim>\<open>xs[:k]\<close> for an integer \<open>k\<close> of either sign.\<close>

definition slice_to :: "int \<Rightarrow> 'a list \<Rightarrow> 'a list" where
  "slice_to k xs = (if 0 \<le> k then take (nat k) xs else take (length xs - nat (- k)) xs)"

definition apply_filters :: "SearchResult list \<Rightarrow> (string \<times> string) list \<Rightarrow> SearchResult list" where
  "apply_filters results fs =
     filter (\<lambda>result. list_all (\<lambda>(key, v). map_of (metadata (document result)) key = Some v) fs)
       results"

text \<open>
  The tail of \<^verbatim>\<open>search\<close>: fusion, the metadata filters, the cut to \<open>k\<close> results.
  Beside its outcome \<^verbatim>\<open>search\<close> reports what it handed on: the queries passed
  to the BM25 searcher, in order, and the argument of the call to \<^verbatim>\<open>fuse\<close>.
\<close>

definition finish_search ::
  "HybridSearch \<Rightarrow> int \<Rightarrow> (string \<times> string) list \<Rightarrow> SearchResult list list \<Rightarrow> Query list \<Rightarrow>
   (error + SearchResult list) \<times> Query list \<times> SearchResult list list list" where
  "finish_search self k fs result_sets bm25_calls =
     (case fuse (fusion self) result_sets of
        Inl e \<Rightarrow> (Inl e, bm25_calls, [result_sets])
      | Inr fused_results \<Rightarrow>
          (Inr (slice_to k (if fs \<noteq> [] then apply_filters fused_results fs else fused_results)),
           bm25_calls, [result_sets]))"

definition search ::
  "HybridSearch \<Rightarrow> string \<Rightarrow> int \<Rightarrow> real \<Rightarrow> (string \<times> string) list \<Rightarrow>
   (error + SearchResult list) \<times> Query list \<times> SearchResult list list list" where
  "search self qtext k ms fs =
     (if \<not> is_indexed self then (Inr [], [], [])
      else
        case expand (query_expander self) (new_Query qtext k ms fs) of
          Inl e \<Rightarrow> (Inl e, [], [])
        | Inr query \<Rightarrow>
            (case bm25_searcher_search self query of
               Inl e \<Rightarrow> (Inl e, [query], [])
             | Inr bm25_results \<Rightarrow>
                 (case semantic_searcher_search self query of
                    Inl e \<Rightarrow> (Inl e, [query], [])
                  | Inr semantic_results \<Rightarrow>
                      if expanded_terms query \<noteq> []
                      then
                        let expanded_query = new_Query (query_text query) k ms fs
                        in case bm25_searcher_search self expanded_query of
                             Inl e \<Rightarrow> (Inl e, [query, expanded_query], [])
                           | Inr expanded_results \<Rightarrow>
                               finish_search self k fs
                                 [bm25_results, semantic_results, expanded_results]
                                 [query, expanded_query]
                      else finish_search self k fs [bm25_results, semantic_results] [query])))"

section \<open>Dictionaries keyed by document id\<close>

text \<open>
  The invariant of the dictionaries that fusion builds: the keys are distinct,
  and the value stored under a key carries that key (\<open>f\<close> reads the key off a
  value).
\<close>

definition keyed_by :: "('v \<Rightarrow> 'k) \<Rightarrow> ('k \<times> 'v) list \<Rightarrow> bool" where
  "keyed_by f al = (distinct (map fst al) \<and> list_all (\<lambda>(k, v). f v = k) al)"

section \<open>Concrete inputs\<close>

text \<open>
  Stand-ins for the library capabilities on the inputs used below, which hold
  lowercase words separated by single spaces and no markup, URL, address or
  punctuation: there tokenisation splits at the spaces, the four substitutions
  change nothing and the lemmatiser returns the words \<open>cat\<close>, \<open>machine\<close>,
  \<open>learning\<close>, \<open>deep\<close> and \<open>network\<close> as they are. The stopword list is an
  excerpt of NLTK's English list.
\<close>

fun split_spaces :: "string \<Rightarrow> string \<Rightarrow> string list" where
  "split_spaces cur [] = (if cur = [] then [] else [cur])"
| "split_spaces cur (c # cs) =
     (if c = CHR '' ''
      then (if cur = [] then split_spaces [] cs else cur # split_spaces [] cs)
      else split_spaces (cur @ [c]) cs)"

definition demo_nlp :: nlp where
  "demo_nlp =
     \<lparr>word_tokenize = split_spaces [],
      lemmatize_word = (\<lambda>w. w),
      stem_word = (\<lambda>w. w),
      stopwords_english = [''the'', ''is'', ''a'', ''of''],
      re_sub_html = (\<lambda>s. s),
      re_sub_urls = (\<lambda>s. s),
      re_sub_emails = (\<lambda>s. s),
      re_sub_punct = (\<lambda>s. s)\<rparr>"

definition default_preprocessing_config :: preprocessing_config where
  "default_preprocessing_config =
     \<lparr>cfg_lowercase = None, cfg_remove_stopwords = None, cfg_remove_punctuation = None,
      cfg_lemmatize = None, cfg_min_word_length = None, cfg_max_word_length = None\<rparr>"

definition demo_preprocessor :: TextPreprocessor where
  "demo_preprocessor = TextPreprocessor_init demo_nlp default_preprocessing_config"

definition new_Document :: "string \<Rightarrow> string \<Rightarrow> Document" where
  "new_Document i c =
     \<lparr>doc_id = i, title = [], content = c, tokens = [], embedding = None, metadata = []\<rparr>"

definition demo_result :: "string \<Rightarrow> real \<Rightarrow> SearchResult" where
  "demo_result i s = new_SearchResult (new_Document i []) s"





definition demo_encode :: "string list \<Rightarrow> real list list" where
  "demo_encode texts = map (\<lambda>t. [real (length t), 1]) texts"

definition demo_generator :: EmbeddingGenerator where
  "demo_generator = EmbeddingGenerator_init None 2 None"

definition demo_semantic :: SemanticSearcher where
  "demo_semantic =
     \<lparr>embedding_generator = demo_generator,
      vector_index = \<lparr>index_type = ''IndexFlatL2'', index_vectors = [], vi_doc_ids = [],
                      is_trained = False\<rparr>,
      sem_documents = []\<rparr>"

text \<open>
  An orchestrator with one expansion strategy, which finds the term \<open>ml\<close> for
  every query (the assignments of \<^verbatim>\<open>SynonymExpander.expand\<close> when WordNet yields
  that synonym), two searchers with fixed answers, and RRF fusion; first as
  the constructor leaves it, then with the flag that indexing sets.
\<close>

definition demo_strategy :: strategy where
  "demo_strategy query =
     Inr (query\<lparr>expanded_terms := [''ml''], query_text := query_text query @ '' ml''\<rparr>)"

definition demo_unindexed :: HybridSearch where
  "demo_unindexed =
     HybridSearch_init \<lparr>enabled = True, expanders = [demo_strategy]\<rparr>
       (\<lambda>q. Inr [demo_result ''1'' 2, demo_result ''2'' 1])
       (\<lambda>q. Inr [demo_result ''2'' (9 / 10)])
       (default_hybrid_config\<lparr>cfg_fusion_strategy := Some ''rrf''\<rparr>)"

definition demo_hybrid :: HybridSearch where
  "demo_hybrid = demo_unindexed\<lparr>is_indexed := True\<rparr>"

section \<open>Properties of min-max normalisation\<close>

lemma fold_min_Min: "fold min xs (x::real) = Min (insert x (set xs))"
proof (induction xs arbitrary: x)
  case Nil
  show ?case by simp
next
  case (Cons y ys)
  have "fold min (y # ys) x = Min (insert (min y x) (set ys))"
    using Cons.IH by simp
  also have "\<dots> = Min (insert x (insert y (set ys)))"
    by (cases "set ys = {}") (simp_all add: min.commute min.assoc min.left_commute)
  finally show ?case by simp
qed

lemma fold_max_Max: "fold max xs (x::real) = Max (insert x (set xs))"
proof (induction xs arbitrary: x)
  case Nil
  show ?case by simp
next
  case (Cons y ys)
  have "fold max (y # ys) x = Max (insert (max y x) (set ys))"
    using Cons.IH by simp
  also have "\<dots> = Max (insert x (insert y (set ys)))"
    by (cases "set ys = {}") (simp_all add: max.commute max.assoc max.left_commute)
  finally show ?case by simp
qed

lemma np_min_Min: "xs \<noteq> [] \<Longrightarrow> np_min xs = Min (set xs)"
  by (cases xs) (simp_all add: fold_min_Min)

lemma np_max_Max: "xs \<noteq> [] \<Longrightarrow> np_max xs = Max (set xs)"
  by (cases xs) (simp_all add: fold_max_Max)

lemma Min_eq_Max_all_equal:
  fixes xs :: "real list"
  assumes "xs \<noteq> []"
  shows "Max (set xs) = Min (set xs) \<longleftrightarrow> (\<forall>x \<in> set xs. \<forall>y \<in> set xs. x = y)"
proof
  assume eq: "Max (set xs) = Min (set xs)"
  show "\<forall>x \<in> set xs. \<forall>y \<in> set xs. x = y"
  proof (intro ballI)
    fix x y
    assume x: "x \<in> set xs" and y: "y \<in> set xs"
    have "Min (set xs) \<le> x" "x \<le> Max (set xs)" "Min (set xs) \<le> y" "y \<le> Max (set xs)"
      using x y by simp_all
    then show "x = y" using eq by linarith
  qed
next
  assume all: "\<forall>x \<in> set xs. \<forall>y \<in> set xs. x = y"
  have "Max (set xs) \<in> set xs" "Min (set xs) \<in> set xs"
    using assms by (simp_all add: Max_in Min_in)
  then show "Max (set xs) = Min (set xs)" using all by blast
qed

lemma min_max_rescaled_bounds:
  fixes xs :: "real list"
  assumes ne: "xs \<noteq> []" and lt: "Min (set xs) < Max (set xs)"
  defines "ys \<equiv> map (\<lambda>x. (x - Min (set xs)) / (Max (set xs) - Min (set xs))) xs"
  shows "Min (set ys) = 0" and "Max (set ys) = 1"
proof -
  let ?m = "Min (set xs)" and ?M = "Max (set xs)"
  let ?f = "\<lambda>x. (x - ?m) / (?M - ?m)"
  have pos: "0 < ?M - ?m" using lt by simp
  have ys: "set ys = ?f ` set xs" by (simp add: ys_def)
  have fin: "finite (set ys)" and ne': "set ys \<noteq> {}" using ne by (simp_all add: ys_def)
  have lo: "0 \<le> y" if yin: "y \<in> set ys" for y
  proof -
    obtain x where x: "x \<in> set xs" and y: "y = ?f x" using yin ys by auto
    have "?m \<le> x" using x by simp
    then show ?thesis using pos y by simp
  qed
  have hi: "y \<le> 1" if yin: "y \<in> set ys" for y
  proof -
    obtain x where x: "x \<in> set xs" and y: "y = ?f x" using yin ys by auto
    have "x \<le> ?M" using x by simp
    then show ?thesis using pos y by simp
  qed
  have "?m \<in> set xs" using ne by (simp add: Min_in)
  then have zero_in: "0 \<in> set ys" using ys by force
  have "?M \<in> set xs" using ne by (simp add: Max_in)
  then have "?f ?M \<in> set ys" using ys by blast
  then have one_in: "1 \<in> set ys" using pos by simp
  show "Min (set ys) = 0"
    using fin zero_in lo by (intro Min_eqI) auto
  show "Max (set ys) = 1"
    using fin one_in hi by (intro Max_eqI) auto
qed

text \<open>
  C7. \<^verbatim>\<open>min_max_normalize\<close> maps the empty list to the empty list; a non-empty
  list whose elements are all equal to a list of the same length holding only 1;
  and every other non-empty list, through \<open>(x - min) / (max - min)\<close>, to a list of
  the same length whose minimum is 0 and whose maximum is 1.
\<close>

theorem min_max_normalize_spec:
  "min_max_normalize [] = []
   \<and> (scores \<noteq> [] \<and> (\<forall>x \<in> set scores. \<forall>y \<in> set scores. x = y) \<longrightarrow>
        min_max_normalize scores = replicate (length scores) 1)
   \<and> (scores \<noteq> [] \<and> \<not> (\<forall>x \<in> set scores. \<forall>y \<in> set scores. x = y) \<longrightarrow>
        min_max_normalize scores =
          map (\<lambda>x. (x - Min (set scores)) / (Max (set scores) - Min (set scores))) scores
        \<and> length (min_max_normalize scores) = length scores
        \<and> Min (set (min_max_normalize scores)) = 0
        \<and> Max (set (min_max_normalize scores)) = 1)"
proof (intro conjI impI)
  show "min_max_normalize [] = []" by (simp add: min_max_normalize_def)
next
  assume "scores \<noteq> [] \<and> (\<forall>x \<in> set scores. \<forall>y \<in> set scores. x = y)"
  then have ne: "scores \<noteq> []" and all: "\<forall>x \<in> set scores. \<forall>y \<in> set scores. x = y"
    by simp_all
  have "np_max scores = np_min scores"
    using ne all Min_eq_Max_all_equal [OF ne] by (simp add: np_min_Min np_max_Max)
  then show "min_max_normalize scores = replicate (length scores) 1"
    using ne by (simp add: min_max_normalize_def Let_def)
next
  assume "scores \<noteq> [] \<and> \<not> (\<forall>x \<in> set scores. \<forall>y \<in> set scores. x = y)"
  then have ne: "scores \<noteq> []"
    and nall: "\<not> (\<forall>x \<in> set scores. \<forall>y \<in> set scores. x = y)"
    by simp_all
  have neq: "Max (set scores) \<noteq> Min (set scores)"
    using nall Min_eq_Max_all_equal [OF ne] by simp
  have "Min (set scores) \<le> Max (set scores)"
    using ne by simp
  then have lt: "Min (set scores) < Max (set scores)" using neq by simp
  show eq: "min_max_normalize scores =
      map (\<lambda>x. (x - Min (set scores)) / (Max (set scores) - Min (set scores))) scores"
    using ne neq by (simp add: min_max_normalize_def np_min_Min np_max_Max Let_def)
  show "length (min_max_normalize scores) = length scores"
    by (simp add: eq)
  show "Min (set (min_max_normalize scores)) = 0"
    using min_max_rescaled_bounds(1) [OF ne lt] by (simp add: eq)
  show "Max (set (min_max_normalize scores)) = 1"
    using min_max_rescaled_bounds(2) [OF ne lt] by (simp add: eq)
qed

theorem min_max_normalize_spec_witness:
  "min_max_normalize [5, 5] = [1, 1]
   \<and> min_max_normalize [1, 2, 3, 4, 5] = [0, 1/4, 1/2, 3/4, 1]
   \<and> Min (set (min_max_normalize [1, 2, 3, 4, 5])) = 0
   \<and> Max (set (min_max_normalize [1, 2, 3, 4, 5])) = 1"
proof -
  have a: "min_max_normalize [5, 5] = [1, 1]"
    using min_max_normalize_spec [of "[5, 5]"] by (simp add: numeral_2_eq_2)
  have "\<not> (\<forall>x \<in> set [1, 2, 3, 4, 5 :: real]. \<forall>y \<in> set [1, 2, 3, 4, 5]. x = y)"
    by simp
  then have b: "min_max_normalize [1, 2, 3, 4, 5] =
       map (\<lambda>x. (x - Min (set [1, 2, 3, 4, 5])) /
                 (Max (set [1, 2, 3, 4, 5]) - Min (set [1, 2, 3, 4, 5]))) [1, 2, 3, 4, 5]
     \<and> Min (set (min_max_normalize [1, 2, 3, 4, 5])) = 0
     \<and> Max (set (min_max_normalize [1, 2, 3, 4, 5])) = 1"
    using min_max_normalize_spec [of "[1, 2, 3, 4, 5]"] by simp
  show ?thesis using a b by simp
qed

section \<open>Query mode of the normaliser\<close>

lemma filter_tokens_flag:
  "filter_tokens ext (self\<lparr>remove_stopwords := f\<rparr>) ts = filter_tokens ext self ts"
  by (induction ts) simp_all

lemma preprocess_flag:
  "preprocess ext (self\<lparr>remove_stopwords := f\<rparr>) txt = preprocess ext self txt"
  by (simp add: preprocess_def Let_def filter_tokens_flag)

text \<open>
  Clearing \<^verbatim>\<open>remove_stopwords\<close> has no effect on \<^verbatim>\<open>_filter_tokens\<close>, which tests
  membership in \<^verbatim>\<open>stop_words\<close>: on every text the query preprocessor returns
  the tokens of the document pipeline and leaves the object as it was.
\<close>

lemma query_preprocess_is_preprocess:
  "query_preprocess ext self txt = (preprocess ext self txt, self)"
proof (cases "txt = []")
  case True
  then show ?thesis by (simp add: query_preprocess_def preprocess_def)
next
  case False
  then show ?thesis by (simp add: query_preprocess_def Let_def preprocess_flag)
qed

text \<open>
  C1 (the code departs from the claim). With the default configuration and the
  text \<open>the cat\<close>, the document pipeline keeps \<open>cat\<close> and drops \<open>the\<close>, and drops
  it only for being a stopword (with an empty stopword set it is kept). Query
  mode as specified keeps both tokens; \<^verbatim>\<open>QueryPreprocessor.preprocess\<close> returns
  \<open>cat\<close> alone.
\<close>

theorem query_mode_drops_stopword:
  "preprocess demo_nlp demo_preprocessor ''the cat'' = [''cat'']
   \<and> preprocess demo_nlp (demo_preprocessor\<lparr>stop_words := []\<rparr>) ''the cat'' = [''the'', ''cat'']
   \<and> spec_query_normalize demo_nlp demo_preprocessor ''the cat'' = [''the'', ''cat'']
   \<and> fst (query_preprocess demo_nlp demo_preprocessor ''the cat'') = [''cat'']"
  by code_simp

section \<open>Weighted fusion with score normalisation enabled\<close>

lemma fusion_weights_Suc: "\<exists>w ws. fusion_weights self (Suc n) = w # ws"
  by (simp add: fusion_weights_def Let_def)

lemma weighted_fusion_raises:
  assumes "normalize_scores self" and "result_sets \<noteq> []"
  shows "weighted_fusion self result_sets = Inl TypeError"
proof -
  obtain results rest where rs: "result_sets = results # rest"
    using assms(2) by (cases result_sets) auto
  obtain w ws where ws: "fusion_weights self (Suc (length rest)) = w # ws"
    using fusion_weights_Suc by blast
  show ?thesis
    using assms(1)
    by (simp add: weighted_fusion_def rs ws call_attr_def self_normalize_scores_def)
qed

text \<open>
  With the flag set, every call of \<^verbatim>\<open>fuse\<close> on two or more lists that reaches
  weighted fusion raises \<^verbatim>\<open>TypeError\<close> in the first iteration of the loop.
\<close>

lemma fuse_weighted_raises:
  assumes "normalize_scores self" and "2 \<le> length result_sets"
    and "fusion_strategy self \<noteq> ''rrf''"
  shows "fuse self result_sets = Inl TypeError"
proof -
  have "result_sets \<noteq> []" "length result_sets \<noteq> 1" using assms(2) by auto
  then show ?thesis
    using assms(1,3) by (simp add: fuse_def weighted_fusion_raises)
qed

text \<open>
  C2 (the code departs from the claim). On the two lists of
  \<^verbatim>\<open>tests/test_fusion.py\<close>, with the default configuration, \<^verbatim>\<open>fuse\<close> raises
  \<^verbatim>\<open>TypeError\<close>; the claim gives document 2 the fused score
  \<open>0 * 0.4 + 1 * 0.6 = 0.6\<close> and says that the call does not raise.
\<close>

theorem weighted_fusion_default_raises:
  "fuse (ResultFusion_init default_hybrid_config)
     [[demo_result ''1'' 0.9, demo_result ''2'' 0.7],
      [demo_result ''2'' 0.8, demo_result ''3'' 0.6]] = Inl TypeError
   \<and> spec_weighted_total (ResultFusion_init default_hybrid_config)
     [[demo_result ''1'' 0.9, demo_result ''2'' 0.7],
      [demo_result ''2'' 0.8, demo_result ''3'' 0.6]] ''2'' = 3 / 5"
  by code_simp

section \<open>Insertion of a document whose id is present\<close>

text \<open>The lexical index returns at once when the id is present.\<close>

lemma add_document_present:
  "map_of (documents self) (doc_id doc) \<noteq> None \<Longrightarrow> add_document ext self doc = self"
  by (simp add: add_document_def)

lemma add_document_stores:
  "map_of (documents (add_document ext self doc)) (doc_id doc) \<noteq> None"
  by (auto simp: add_document_def Let_def update_avg_length_def update_conv')

lemma add_document_twice:
  "doc_id doc' = doc_id doc \<Longrightarrow>
   add_document ext (add_document ext self doc) doc' = add_document ext self doc"
  using add_document_stores [of ext self doc]
    add_document_present [of "add_document ext self doc" doc' ext]
  by simp

lemma add_documents_present:
  "\<forall>d \<in> set docs. map_of (documents self) (doc_id d) \<noteq> None \<Longrightarrow>
   add_documents ext self docs = self"
  by (induction docs) (simp_all add: add_document_present)

text \<open>
  C4 (the code departs from the claim). \<^verbatim>\<open>BM25Indexer.add_document\<close> tests the id
  and is idempotent (\<open>add_document_twice\<close>); \<^verbatim>\<open>SemanticSearcher.index_documents\<close>
  has no such test. Indexing the document with id 1 a second time leaves one
  stored document but two vectors and two id entries in the vector index.
\<close>

theorem semantic_reindex_duplicates:
  "(case semantic_index_documents demo_encode demo_semantic
            [new_Document ''1'' ''machine learning''] of
      Inl e \<Rightarrow> None
    | Inr s1 \<Rightarrow>
        (case semantic_index_documents demo_encode s1
                [new_Document ''1'' ''machine learning''] of
           Inl e \<Rightarrow> None
         | Inr s2 \<Rightarrow>
             Some (vi_doc_ids (vector_index s1), vi_doc_ids (vector_index s2),
                   index_vectors (vector_index s2), map fst (sem_documents s2))))
   = Some ([''1''], [''1'', ''1''], [[16, 1], [16, 1]], [''1''])"
  by code_simp

section \<open>Document frequency and IDF on demand\<close>



lemma length_update_new:
  "map_of al k = None \<Longrightarrow> length (AList.update k v al) = Suc (length al)"
  by (induction al) (auto split: if_splits)

lemma add_document_lengths:
  "length (documents self) = length (tokenized_corpus self) \<Longrightarrow>
   length (documents (add_document ext self doc)) =
     length (tokenized_corpus (add_document ext self doc))"
  by (auto simp: add_document_def Let_def update_avg_length_def length_update_new)

lemma add_documents_lengths:
  "length (documents self) = length (tokenized_corpus self) \<Longrightarrow>
   length (documents (add_documents ext self docs)) =
     length (tokenized_corpus (add_documents ext self docs))"
  by (induction docs arbitrary: self) (simp_all add: add_document_lengths)

text \<open>
  A fresh searcher is in an indexed state, and \<^verbatim>\<open>index_documents\<close> keeps a
  searcher in one whenever it returns.
\<close>

lemma init_indexed_state: "indexed_state (BM25Searcher_init cfg pre)"
  by (simp add: indexed_state_def BM25Searcher_init_def BM25Indexer_init_def)

lemma bm25_index_documents_indexed_state:
  assumes "indexed_state self" and "bm25_index_documents okapi ext self docs = Inr self1"
  shows "indexed_state self1"
  using assms
  by (auto simp: bm25_index_documents_def indexed_state_def Let_def add_documents_lengths
      split: if_splits sum.splits)









section \<open>The orchestrator's search\<close>

text \<open>
  C9. For every query text, \<open>k\<close>, \<open>min_score\<close> and filters, \<^verbatim>\<open>search\<close> on an engine
  that is not indexed returns the empty list: it raises nothing, and it calls
  neither the searchers nor the fusion engine.
\<close>

theorem search_unindexed:
  "\<not> is_indexed self \<Longrightarrow> search self qtext k ms fs = (Inr [], [], [])"
  by (simp add: search_def)

theorem search_unindexed_witness:
  "\<not> is_indexed demo_unindexed
   \<and> search demo_unindexed ''machine learning'' 10 0 [(''lang'', ''en'')] = (Inr [], [], [])"
proof -
  have u: "\<not> is_indexed demo_unindexed"
    by (simp add: demo_unindexed_def HybridSearch_init_def)
  show ?thesis
    using u search_unindexed [OF u, of "''machine learning''" 10 0 "[(''lang'', ''en'')]"]
    by simp
qed

lemma finish_search_calls: "fst (snd (finish_search self k fs rs calls)) = calls"
  by (simp add: finish_search_def split: sum.splits)

text \<open>
  Whatever the expander does, \<^verbatim>\<open>search\<close> hands the BM25 searcher at most two
  queries, and the second is built from the text of the first.
\<close>

lemma search_bm25_calls:
  "fst (snd (search self qtext k ms fs)) = []
   \<or> (\<exists>q. fst (snd (search self qtext k ms fs)) = [q])
   \<or> (\<exists>q. expand (query_expander self) (new_Query qtext k ms fs) = Inr q
          \<and> fst (snd (search self qtext k ms fs)) = [q, new_Query (query_text q) k ms fs])"
  by (auto simp: search_def Let_def finish_search_calls split: sum.splits)

text \<open>
  C3 (the code departs from the claim). The query \<open>machine learning\<close> is expanded
  by the term \<open>ml\<close>. The BM25 searcher is called twice, both times with the
  expanded text \<open>machine learning ml\<close> and never with the original text, and
  fusion receives the same BM25 list as its first and its third input.
\<close>

theorem search_repeats_expanded_query:
  "map expanded_terms (fst (snd (search demo_hybrid ''machine learning'' 10 0 []))) = [[''ml''], []]
   \<and> map query_text (fst (snd (search demo_hybrid ''machine learning'' 10 0 [])))
       = [''machine learning ml'', ''machine learning ml'']
   \<and> snd (snd (search demo_hybrid ''machine learning'' 10 0 []))
       = [[[demo_result ''1'' 2, demo_result ''2'' 1], [demo_result ''2'' (9 / 10)],
           [demo_result ''1'' 2, demo_result ''2'' 1]]]"
  by code_simp

section \<open>Fusion: one entry per document\<close>

text \<open>
  Writing a value under its own key keeps a dictionary keyed; the weighted
  loop does nothing else to \<^verbatim>\<open>fused_results\<close>.
\<close>

lemma keyed_by_Nil: "keyed_by f []"
  by (simp add: keyed_by_def)

lemma set_update_subset: "set (AList.update k v al) \<subseteq> insert (k, v) (set al)"
  by (induction al) auto

lemma keyed_by_update:
  assumes "keyed_by f al" and "f v = k"
  shows "keyed_by f (AList.update k v al)"
proof -
  have "distinct (map fst (AList.update k v al))"
    using assms(1) by (simp add: keyed_by_def distinct_update)
  moreover have "list_all (\<lambda>(k, v). f v = k) (AList.update k v al)"
    using assms set_update_subset [of k v al]
    by (auto simp: keyed_by_def list_all_iff)
  ultimately show ?thesis by (simp add: keyed_by_def)
qed

lemma keyed_by_lookup:
  "keyed_by f al \<Longrightarrow> map_of al k = Some v \<Longrightarrow> f v = k"
  by (auto simp: keyed_by_def list_all_iff dest: map_of_SomeD)

lemma keyed_by_keys:
  "keyed_by f al \<Longrightarrow> map (f \<circ> snd) al = map fst al"
  by (auto simp: keyed_by_def list_all_iff)

lemma weighted_add_keyed:
  assumes "keyed_by (doc_id \<circ> document) al"
  shows "keyed_by (doc_id \<circ> document) (weighted_add w al r)"
proof (cases "map_of al (doc_id (document r))")
  case None
  then show ?thesis
    using assms by (simp add: weighted_add_def Let_def keyed_by_update)
next
  case (Some old)
  have "(doc_id \<circ> document) old = doc_id (document r)"
    using keyed_by_lookup [OF assms Some] .
  then show ?thesis
    using assms Some by (simp add: weighted_add_def Let_def keyed_by_update)
qed

lemma fold_weighted_add_keyed:
  "keyed_by (doc_id \<circ> document) al \<Longrightarrow>
   keyed_by (doc_id \<circ> document) (fold (\<lambda>r acc. weighted_add w acc r) rs al)"
  by (induction rs arbitrary: al) (simp_all add: weighted_add_keyed)

lemma weighted_loop_keyed:
  "weighted_loop self ps al = Inr al' \<Longrightarrow> keyed_by (doc_id \<circ> document) al \<Longrightarrow>
   keyed_by (doc_id \<circ> document) al'"
proof (induction ps arbitrary: al)
  case Nil
  then show ?case by simp
next
  case (Cons p ps)
  obtain results w where p: "p = (results, w)" by (cases p)
  from Cons.prems(1) obtain results1 where
    rest: "weighted_loop self ps (fold (\<lambda>r acc. weighted_add w acc r) results1 al) = Inr al'"
    by (auto simp: p split: sum.splits)
  show ?case
    using Cons.IH [OF rest fold_weighted_add_keyed [OF Cons.prems(2)]] .
qed

lemma distinct_map_sort_key:
  "distinct (map g (sort_key f xs)) = distinct (map g xs)"
  by (simp add: distinct_map)

lemma weighted_fusion_distinct:
  assumes "weighted_fusion self rs = Inr out"
  shows "distinct (map (doc_id \<circ> document) out)"
proof -
  from assms obtain al where
    al: "weighted_loop self (zip rs (fusion_weights self (length rs))) [] = Inr al"
    and out: "out = sort_by_score_desc (map snd al)"
    by (auto simp: weighted_fusion_def split: sum.splits)
  have inv: "keyed_by (doc_id \<circ> document) al"
    using weighted_loop_keyed [OF al keyed_by_Nil] .
  have d: "distinct (map fst al)" using inv by (simp add: keyed_by_def)
  have "distinct (map ((doc_id \<circ> document) \<circ> snd) al)"
    using d by (simp only: keyed_by_keys [OF inv])
  then have "distinct (map (doc_id \<circ> document) (map snd al))"
    by (simp only: map_map)
  then show ?thesis
    unfolding out sort_by_score_desc_def by (simp only: distinct_map_sort_key)
qed

text \<open>With the flag off, the weighted loop has no step that raises.\<close>

lemma weighted_loop_returns:
  "\<not> normalize_scores self \<Longrightarrow> \<exists>al'. weighted_loop self ps al = Inr al'"
proof (induction ps arbitrary: al)
  case Nil
  then show ?case by simp
next
  case (Cons p ps)
  obtain results w where p: "p = (results, w)" by (cases p)
  show ?case
    using Cons.prems Cons.IH [OF Cons.prems] by (simp add: p)
qed

lemma weighted_fusion_returns:
  assumes "\<not> normalize_scores self"
  shows "\<exists>out. weighted_fusion self rss = Inr out"
proof -
  obtain al where "weighted_loop self (zip rss (fusion_weights self (length rss))) [] = Inr al"
    using weighted_loop_returns [OF assms] by blast
  then show ?thesis by (simp add: weighted_fusion_def)
qed

section \<open>Reciprocal rank fusion\<close>

text \<open>The loops read nothing of a result but its document.\<close>

lemma rrf_inner_documents:
  "map document rs = map document rs' \<Longrightarrow> rrf_inner kr n rs st = rrf_inner kr n rs' st"
proof (induction rs arbitrary: rs' n st)
  case Nil
  then show ?case by simp
next
  case (Cons r rs)
  then obtain r' rs'' where rs': "rs' = r' # rs''" and d: "document r = document r'"
    and rest: "map document rs = map document rs''"
    by (cases rs') auto
  obtain sc docs where st: "st = (sc, docs)" by (cases st)
  show ?case
    using Cons.IH [OF rest] by (simp add: rs' st d Let_def split: option.splits)
qed

lemma rrf_outer_documents:
  "map (map document) rss = map (map document) rss' \<Longrightarrow> rrf_outer kr rss st = rrf_outer kr rss' st"
proof (induction rss arbitrary: rss' st)
  case Nil
  then show ?case by simp
next
  case (Cons rs rss)
  then obtain rs' rss'' where r: "rss' = rs' # rss''" and d: "map document rs = map document rs'"
    and rest: "map (map document) rss = map (map document) rss''"
    by (cases rss') auto
  show ?case
    using Cons.IH [OF rest] rrf_inner_documents [OF d]
    by (simp add: r split: sum.splits)
qed

lemma rrf_documents_only:
  "map (map document) rss = map (map document) rss' \<Longrightarrow>
   reciprocal_rank_fusion self rss = reciprocal_rank_fusion self rss'"
  by (simp add: reciprocal_rank_fusion_def rrf_outer_documents [of rss rss'])

text \<open>The loops return unless a denominator \<open>k_rrf + rank\<close> is 0.\<close>

lemma rrf_inner_total:
  "(\<forall>m. n \<le> m \<longrightarrow> kr + real m \<noteq> 0) \<Longrightarrow> \<exists>st'. rrf_inner kr n rs st = Inr st'"
proof (induction rs arbitrary: n st)
  case Nil
  then show ?case by simp
next
  case (Cons r rs)
  obtain sc docs where st: "st = (sc, docs)" by (cases st)
  have nz: "kr + real n \<noteq> 0" using Cons.prems by simp
  have next_ok: "\<forall>m. Suc n \<le> m \<longrightarrow> kr + real m \<noteq> 0" using Cons.prems by simp
  show ?case
    using nz Cons.IH [OF next_ok] by (simp add: st Let_def split: option.splits)
qed

lemma rrf_outer_total:
  "(\<forall>m. 1 \<le> m \<longrightarrow> kr + real m \<noteq> 0) \<Longrightarrow> \<exists>st'. rrf_outer kr rss st = Inr st'"
proof (induction rss arbitrary: st)
  case Nil
  then show ?case by simp
next
  case (Cons rs rss)
  obtain st1 where s1: "rrf_inner kr 1 rs st = Inr st1"
    using rrf_inner_total [OF Cons.prems] by blast
  show ?case using Cons.IH [OF Cons.prems, of st1] s1 by simp
qed

text \<open>
  The two dictionaries keep the same keys in the same order, and each document
  is stored under its own id.
\<close>

lemma rrf_inner_inv:
  "rrf_inner kr n rs (sc, docs) = Inr (sc', docs') \<Longrightarrow>
   keyed_by doc_id docs \<Longrightarrow> map fst docs = map fst sc \<Longrightarrow>
   keyed_by doc_id docs' \<and> map fst docs' = map fst sc'"
proof (induction rs arbitrary: n sc docs)
  case Nil
  then show ?case by simp
next
  case (Cons r rs)
  let ?did = "doc_id (document r)"
  have nz: "kr + real n \<noteq> 0" using Cons.prems(1) by (auto split: if_splits)
  show ?case
  proof (cases "map_of sc ?did")
    case None
    then have notin: "?did \<notin> set (map fst sc)"
      by (simp add: map_of_eq_None_iff)
    have step: "rrf_inner kr (Suc n) rs
        (AList.update ?did (1 / (kr + real n)) sc, AList.update ?did (document r) docs) = Inr (sc', docs')"
      using Cons.prems(1) nz None by (simp add: Let_def)
    have k: "keyed_by doc_id (AList.update ?did (document r) docs)"
      using Cons.prems(2) by (simp add: keyed_by_update)
    have m: "map fst (AList.update ?did (document r) docs) = map fst (AList.update ?did (1 / (kr + real n)) sc)"
      using notin Cons.prems(3) by (simp add: update_keys)
    show ?thesis using Cons.IH [OF step k m] .
  next
    case (Some old)
    then have isin: "?did \<in> set (map fst sc)"
      by (metis map_of_eq_None_iff option.distinct(1) set_map)
    have step: "rrf_inner kr (Suc n) rs (AList.update ?did (old + 1 / (kr + real n)) sc, docs) = Inr (sc', docs')"
      using Cons.prems(1) nz Some by (simp add: Let_def)
    have m: "map fst docs = map fst (AList.update ?did (old + 1 / (kr + real n)) sc)"
      using isin Cons.prems(3) by (simp add: update_keys)
    show ?thesis using Cons.IH [OF step Cons.prems(2) m] .
  qed
qed

text \<open>
  One list adds, to the score stored for a document, the reciprocals of the
  ranks at which the document stands in the list.
\<close>

lemma rrf_inner_value:
  "rrf_inner kr n rs (sc, docs) = Inr (sc', docs') \<Longrightarrow>
   get_default (map_of sc' d) 0 = get_default (map_of sc d) 0 + rank_sum kr n rs d"
proof (induction rs arbitrary: n sc docs)
  case Nil
  then show ?case by simp
next
  case (Cons r rs)
  let ?did = "doc_id (document r)"
  have nz: "kr + real n \<noteq> 0" using Cons.prems(1) by (auto split: if_splits)
  show ?case
  proof (cases "map_of sc ?did")
    case None
    have step: "rrf_inner kr (Suc n) rs
        (AList.update ?did (1 / (kr + real n)) sc, AList.update ?did (document r) docs) = Inr (sc', docs')"
      using Cons.prems(1) nz None by (simp add: Let_def)
    show ?thesis
      using Cons.IH [OF step] None by (auto simp: update_conv' get_default_def)
  next
    case (Some old)
    have step: "rrf_inner kr (Suc n) rs (AList.update ?did (old + 1 / (kr + real n)) sc, docs) = Inr (sc', docs')"
      using Cons.prems(1) nz Some by (simp add: Let_def)
    show ?thesis
      using Cons.IH [OF step] Some by (auto simp: update_conv' get_default_def)
  qed
qed

text \<open>The keys after a list are the keys before it and the ids of its documents.\<close>

lemma rrf_inner_keys:
  "rrf_inner kr n rs (sc, docs) = Inr (sc', docs') \<Longrightarrow>
   fst ` set sc' = fst ` set sc \<union> (doc_id \<circ> document) ` set rs
   \<and> (distinct (map fst sc) \<longrightarrow> distinct (map fst sc'))"
proof (induction rs arbitrary: n sc docs)
  case Nil
  then show ?case by simp
next
  case (Cons r rs)
  let ?did = "doc_id (document r)"
  have nz: "kr + real n \<noteq> 0" using Cons.prems(1) by (auto split: if_splits)
  show ?case
  proof (cases "map_of sc ?did")
    case None
    have step: "rrf_inner kr (Suc n) rs
        (AList.update ?did (1 / (kr + real n)) sc, AList.update ?did (document r) docs) = Inr (sc', docs')"
      using Cons.prems(1) nz None by (simp add: Let_def)
    show ?thesis
      using Cons.IH [OF step] by (auto simp: dom_update distinct_update)
  next
    case (Some old)
    have step: "rrf_inner kr (Suc n) rs (AList.update ?did (old + 1 / (kr + real n)) sc, docs) = Inr (sc', docs')"
      using Cons.prems(1) nz Some by (simp add: Let_def)
    show ?thesis
      using Cons.IH [OF step] by (auto simp: dom_update distinct_update)
  qed
qed

lemma rrf_outer_inv:
  "rrf_outer kr rss (sc, docs) = Inr (sc', docs') \<Longrightarrow>
   keyed_by doc_id docs \<Longrightarrow> map fst docs = map fst sc \<Longrightarrow>
   keyed_by doc_id docs' \<and> map fst docs' = map fst sc'"
proof (induction rss arbitrary: sc docs)
  case Nil
  then show ?case by simp
next
  case (Cons rs rss)
  from Cons.prems(1) obtain sc1 docs1 where
    s1: "rrf_inner kr 1 rs (sc, docs) = Inr (sc1, docs1)"
    and rest: "rrf_outer kr rss (sc1, docs1) = Inr (sc', docs')"
    by (auto split: sum.splits)
  have "keyed_by doc_id docs1 \<and> map fst docs1 = map fst sc1"
    using rrf_inner_inv [OF s1 Cons.prems(2,3)] .
  then show ?case using Cons.IH [OF rest] by simp
qed

lemma rrf_outer_value:
  "rrf_outer kr rss (sc, docs) = Inr (sc', docs') \<Longrightarrow>
   get_default (map_of sc' d) 0 = get_default (map_of sc d) 0 + rrf_total kr rss d"
proof (induction rss arbitrary: sc docs)
  case Nil
  then show ?case by (simp add: rrf_total_def)
next
  case (Cons rs rss)
  from Cons.prems(1) obtain sc1 docs1 where
    s1: "rrf_inner kr 1 rs (sc, docs) = Inr (sc1, docs1)"
    and rest: "rrf_outer kr rss (sc1, docs1) = Inr (sc', docs')"
    by (auto split: sum.splits)
  show ?case
    using Cons.IH [OF rest] rrf_inner_value [OF s1, of d] by (simp add: rrf_total_def)
qed

lemma rrf_outer_keys:
  "rrf_outer kr rss (sc, docs) = Inr (sc', docs') \<Longrightarrow>
   fst ` set sc' = fst ` set sc \<union> (\<Union>rs \<in> set rss. (doc_id \<circ> document) ` set rs)
   \<and> (distinct (map fst sc) \<longrightarrow> distinct (map fst sc'))"
proof (induction rss arbitrary: sc docs)
  case Nil
  then show ?case by simp
next
  case (Cons rs rss)
  from Cons.prems(1) obtain sc1 docs1 where
    s1: "rrf_inner kr 1 rs (sc, docs) = Inr (sc1, docs1)"
    and rest: "rrf_outer kr rss (sc1, docs1) = Inr (sc', docs')"
    by (auto split: sum.splits)
  show ?case
    using Cons.IH [OF rest] rrf_inner_keys [OF s1] by auto
qed

text \<open>
  Building the results raises no \<^verbatim>\<open>KeyError\<close>, and every result carries the id
  and the score of one entry of \<^verbatim>\<open>rrf_scores\<close>.
\<close>

lemma rrf_results_entries:
  "keyed_by doc_id docs \<Longrightarrow> set (map fst sc) \<subseteq> set (map fst docs) \<Longrightarrow>
   \<exists>out. rrf_results docs sc = Inr out
     \<and> map (doc_id \<circ> document) out = map fst sc
     \<and> (\<forall>x \<in> set out. (doc_id (document x), score x) \<in> set sc)"
proof (induction sc)
  case Nil
  then show ?case by simp
next
  case (Cons p sc)
  obtain did s where p: "p = (did, s)" by (cases p)
  have "did \<in> set (map fst docs)" using Cons.prems(2) by (simp add: p)
  then obtain d where d: "map_of docs did = Some d"
    by (metis map_of_eq_None_iff not_None_eq set_map)
  have id: "doc_id d = did" using keyed_by_lookup [OF Cons.prems(1) d] .
  have sub: "set (map fst sc) \<subseteq> set (map fst docs)" using Cons.prems(2) by simp
  obtain out where out: "rrf_results docs sc = Inr out"
    and ids: "map (doc_id \<circ> document) out = map fst sc"
    and ent: "\<forall>x \<in> set out. (doc_id (document x), score x) \<in> set sc"
    using Cons.IH [OF Cons.prems(1) sub] by blast
  show ?case
    using out ids ent by (simp add: p d id new_SearchResult_def comp_def)
qed

lemma rrf_output:
  assumes "reciprocal_rank_fusion self rss = Inr out"
  shows "distinct (map (doc_id \<circ> document) out)"
    and "\<forall>x \<in> set out. score x = rrf_total (k_rrf self) rss (doc_id (document x))"
    and "set (map (doc_id \<circ> document) out) = (\<Union>rs \<in> set rss. (doc_id \<circ> document) ` set rs)"
    and "sorted (map (\<lambda>x. - score x) out)"
proof -
  from assms obtain sc docs fused where
    outer: "rrf_outer (k_rrf self) rss ([], []) = Inr (sc, docs)"
    and res: "rrf_results docs sc = Inr fused"
    and out: "out = sort_by_score_desc fused"
    by (auto simp: reciprocal_rank_fusion_def split: sum.splits)
  have inv: "keyed_by doc_id docs \<and> map fst docs = map fst sc"
    using rrf_outer_inv [OF outer keyed_by_Nil] by simp
  have keys: "fst ` set sc = (\<Union>rs \<in> set rss. (doc_id \<circ> document) ` set rs)"
    and dist: "distinct (map fst sc)"
    using rrf_outer_keys [OF outer] by simp_all
  have val: "get_default (map_of sc d) 0 = rrf_total (k_rrf self) rss d" for d
    using rrf_outer_value [OF outer, of d] by (simp add: get_default_def)
  obtain fused' where f': "rrf_results docs sc = Inr fused'"
    and ids': "map (doc_id \<circ> document) fused' = map fst sc"
    and ent': "\<forall>x \<in> set fused'. (doc_id (document x), score x) \<in> set sc"
    using rrf_results_entries [of docs sc] inv by auto
  have eq: "fused' = fused" using f' res by simp
  have ids: "map (doc_id \<circ> document) fused = map fst sc" using ids' eq by simp
  have ent: "\<forall>x \<in> set fused. (doc_id (document x), score x) \<in> set sc" using ent' eq by simp
  show "distinct (map (doc_id \<circ> document) out)"
    unfolding out sort_by_score_desc_def
    using dist by (simp only: distinct_map_sort_key ids)
  show "\<forall>x \<in> set out. score x = rrf_total (k_rrf self) rss (doc_id (document x))"
  proof
    fix x assume "x \<in> set out"
    then have "x \<in> set fused" by (simp add: out sort_by_score_desc_def)
    then have "(doc_id (document x), score x) \<in> set sc" using ent by blast
    then have "map_of sc (doc_id (document x)) = Some (score x)"
      using dist by simp
    then show "score x = rrf_total (k_rrf self) rss (doc_id (document x))"
      using val [of "doc_id (document x)"] by (simp add: get_default_def)
  qed
  have "set (map (doc_id \<circ> document) out) = set (map (doc_id \<circ> document) fused)"
    by (simp add: out sort_by_score_desc_def)
  also have "\<dots> = fst ` set sc" by (simp only: ids set_map)
  finally show "set (map (doc_id \<circ> document) out) = (\<Union>rs \<in> set rss. (doc_id \<circ> document) ` set rs)"
    using keys by simp
  show "sorted (map (\<lambda>x. - score x) out)"
    by (simp add: out sort_by_score_desc_def)
qed

lemma rrf_total_returns:
  assumes "\<forall>m. 1 \<le> m \<longrightarrow> k_rrf self + real m \<noteq> 0"
  shows "\<exists>out. reciprocal_rank_fusion self rss = Inr out"
proof -
  obtain st where "rrf_outer (k_rrf self) rss ([], []) = Inr st"
    using rrf_outer_total [OF assms] by blast
  then obtain sc docs where outer: "rrf_outer (k_rrf self) rss ([], []) = Inr (sc, docs)"
    by (cases st) auto
  have inv: "keyed_by doc_id docs \<and> map fst docs = map fst sc"
    using rrf_outer_inv [OF outer keyed_by_Nil] by simp
  obtain fused where "rrf_results docs sc = Inr fused"
    using rrf_results_entries [of docs sc] inv by auto
  then show ?thesis using outer by (simp add: reciprocal_rank_fusion_def)
qed

text \<open>
  C5. The output of RRF fusion depends only on which document stands at which
  rank of which list: two inputs with the same documents at the same positions,
  whatever their scores, give the same output. Whenever no \<open>k_rrf + r\<close> is 0
  (so for every \<open>k_rrf \<ge> 0\<close>) the fusion returns; the fused score of every
  returned document is the sum, over the lists and the 1-based ranks \<open>r\<close> at
  which it stands, of \<open>1 / (k_rrf + r)\<close>; the returned documents are those of the
  input, in descending order of fused score. \<open>k_rrf\<close> defaults to 10.
\<close>

theorem rrf_rank_only:
  "(map (map document) rss = map (map document) rss' \<longrightarrow>
      reciprocal_rank_fusion self rss = reciprocal_rank_fusion self rss')
   \<and> ((\<forall>m. 1 \<le> m \<longrightarrow> k_rrf self + real m \<noteq> 0) \<longrightarrow>
        (\<exists>out. reciprocal_rank_fusion self rss = Inr out
           \<and> (\<forall>x \<in> set out. score x = rrf_total (k_rrf self) rss (doc_id (document x)))
           \<and> set (map (doc_id \<circ> document) out) = (\<Union>rs \<in> set rss. (doc_id \<circ> document) ` set rs)
           \<and> sorted (map (\<lambda>x. - score x) out)))
   \<and> k_rrf (ResultFusion_init default_hybrid_config) = 10"
proof (intro conjI impI)
  assume "map (map document) rss = map (map document) rss'"
  then show "reciprocal_rank_fusion self rss = reciprocal_rank_fusion self rss'"
    by (rule rrf_documents_only)
next
  assume "\<forall>m. 1 \<le> m \<longrightarrow> k_rrf self + real m \<noteq> 0"
  then obtain out where out: "reciprocal_rank_fusion self rss = Inr out"
    using rrf_total_returns by blast
  show "\<exists>out. reciprocal_rank_fusion self rss = Inr out
           \<and> (\<forall>x \<in> set out. score x = rrf_total (k_rrf self) rss (doc_id (document x)))
           \<and> set (map (doc_id \<circ> document) out) = (\<Union>rs \<in> set rss. (doc_id \<circ> document) ` set rs)
           \<and> sorted (map (\<lambda>x. - score x) out)"
    using out rrf_output(2,3,4) [OF out] by blast
next
  show "k_rrf (ResultFusion_init default_hybrid_config) = 10"
    by (simp add: ResultFusion_init_def default_hybrid_config_def get_default_def)
qed

theorem rrf_rank_only_witness:
  "reciprocal_rank_fusion (ResultFusion_init default_hybrid_config)
       [[demo_result ''1'' (9 / 10), demo_result ''2'' (7 / 10)],
        [demo_result ''1'' (8 / 10), demo_result ''3'' (6 / 10)]]
     = reciprocal_rank_fusion (ResultFusion_init default_hybrid_config)
       [[demo_result ''1'' 5, demo_result ''2'' 1],
        [demo_result ''1'' 100, demo_result ''3'' 3]]
   \<and> reciprocal_rank_fusion (ResultFusion_init default_hybrid_config)
       [[demo_result ''1'' (9 / 10), demo_result ''2'' (7 / 10)],
        [demo_result ''1'' (8 / 10), demo_result ''3'' (6 / 10)]]
     = Inr [demo_result ''1'' (2 / 11), demo_result ''2'' (1 / 12), demo_result ''3'' (1 / 12)]
   \<and> rrf_total 10
       [[demo_result ''1'' (9 / 10), demo_result ''2'' (7 / 10)],
        [demo_result ''1'' (8 / 10), demo_result ''3'' (6 / 10)]] ''1'' = 2 / 11"
proof -
  let ?F = "ResultFusion_init default_hybrid_config"
  let ?A = "[[demo_result ''1'' (9 / 10), demo_result ''2'' (7 / 10)],
        [demo_result ''1'' (8 / 10), demo_result ''3'' (6 / 10)]]"
  let ?B = "[[demo_result ''1'' 5, demo_result ''2'' 1],
        [demo_result ''1'' 100, demo_result ''3'' 3]]"
  have k: "k_rrf ?F = 10"
    by (simp add: ResultFusion_init_def default_hybrid_config_def get_default_def)
  have docs: "map (map document) ?A = map (map document) ?B"
    by (simp add: demo_result_def new_SearchResult_def)
  have nz: "\<forall>m. 1 \<le> m \<longrightarrow> k_rrf ?F + real m \<noteq> 0"
    by (simp add: k)
  have ev: "reciprocal_rank_fusion ?F ?A
      = Inr [demo_result ''1'' (2 / 11), demo_result ''2'' (1 / 12), demo_result ''3'' (1 / 12)]"
    by code_simp
  have "score (demo_result ''1'' (2 / 11)) = rrf_total 10 ?A (doc_id (document (demo_result ''1'' (2 / 11))))"
    using rrf_rank_only [of ?A ?B ?F] nz ev k by auto
  then have tot: "rrf_total 10 ?A ''1'' = 2 / 11"
    by (simp add: demo_result_def new_SearchResult_def new_Document_def)
  show ?thesis
    using rrf_rank_only [of ?A ?B ?F] docs ev tot by simp
qed

text \<open>
  C10. For every call of \<^verbatim>\<open>fuse\<close> with two or more lists, under the weighted
  strategy, the RRF strategy or an unknown strategy name, no document id
  appears twice in a returned list, whether or not a document occurs in several
  lists or several times in one list. The call returns under RRF whenever no
  \<open>k_rrf + r\<close> is 0, and under the weighted strategy whenever score
  normalisation is switched off.
\<close>

theorem fuse_ids_distinct:
  assumes "2 \<le> length rss"
  shows "(\<forall>out. fuse self rss = Inr out \<longrightarrow> distinct (map (doc_id \<circ> document) out))
         \<and> ((fusion_strategy self = ''rrf'' \<and> (\<forall>m. 1 \<le> m \<longrightarrow> k_rrf self + real m \<noteq> 0)
              \<or> fusion_strategy self \<noteq> ''rrf'' \<and> \<not> normalize_scores self)
             \<longrightarrow> (\<exists>out. fuse self rss = Inr out))"
proof (intro conjI allI impI)
  fix out
  assume "fuse self rss = Inr out"
  then have "weighted_fusion self rss = Inr out \<or> reciprocal_rank_fusion self rss = Inr out"
    using assms by (auto simp: fuse_def split: if_splits)
  then show "distinct (map (doc_id \<circ> document) out)"
    using weighted_fusion_distinct rrf_output(1) by blast
next
  assume c: "fusion_strategy self = ''rrf'' \<and> (\<forall>m. 1 \<le> m \<longrightarrow> k_rrf self + real m \<noteq> 0)
              \<or> fusion_strategy self \<noteq> ''rrf'' \<and> \<not> normalize_scores self"
  have ne: "rss \<noteq> []" "length rss \<noteq> 1" using assms by auto
  from c show "\<exists>out. fuse self rss = Inr out"
  proof
    assume "fusion_strategy self = ''rrf'' \<and> (\<forall>m. 1 \<le> m \<longrightarrow> k_rrf self + real m \<noteq> 0)"
    then show ?thesis
      using ne rrf_total_returns [of self rss] by (simp add: fuse_def)
  next
    assume "fusion_strategy self \<noteq> ''rrf'' \<and> \<not> normalize_scores self"
    then show ?thesis
      using ne weighted_fusion_returns [of self rss] by (simp add: fuse_def)
  qed
qed

theorem fuse_ids_distinct_witness:
  "fuse (ResultFusion_init (default_hybrid_config\<lparr>cfg_fusion_strategy := Some ''rrf''\<rparr>))
       [[demo_result ''1'' (9 / 10), demo_result ''1'' (5 / 10), demo_result ''2'' (7 / 10)],
        [demo_result ''2'' (8 / 10), demo_result ''3'' (6 / 10)]]
     = Inr [demo_result ''1'' (23 / 132), demo_result ''2'' (24 / 143), demo_result ''3'' (1 / 12)]
   \<and> distinct (map (doc_id \<circ> document)
        [demo_result ''1'' (23 / 132), demo_result ''2'' (24 / 143), demo_result ''3'' (1 / 12)])
   \<and> fuse (ResultFusion_init (default_hybrid_config\<lparr>cfg_normalize_scores := Some False\<rparr>))
       [[demo_result ''1'' (9 / 10), demo_result ''1'' (5 / 10), demo_result ''2'' (7 / 10)],
        [demo_result ''2'' (8 / 10), demo_result ''3'' (6 / 10)]]
     = Inr [demo_result ''2'' (19 / 25), demo_result ''1'' (14 / 25), demo_result ''3'' (9 / 25)]
   \<and> distinct (map (doc_id \<circ> document)
        [demo_result ''2'' (19 / 25), demo_result ''1'' (14 / 25), demo_result ''3'' (9 / 25)])"
proof -
  let ?rss = "[[demo_result ''1'' (9 / 10), demo_result ''1'' (5 / 10), demo_result ''2'' (7 / 10)],
        [demo_result ''2'' (8 / 10), demo_result ''3'' (6 / 10)]]"
  have len: "2 \<le> length ?rss" by simp
  have r: "fuse (ResultFusion_init (default_hybrid_config\<lparr>cfg_fusion_strategy := Some ''rrf''\<rparr>)) ?rss
     = Inr [demo_result ''1'' (23 / 132), demo_result ''2'' (24 / 143), demo_result ''3'' (1 / 12)]"
    by code_simp
  have w: "fuse (ResultFusion_init (default_hybrid_config\<lparr>cfg_normalize_scores := Some False\<rparr>)) ?rss
     = Inr [demo_result ''2'' (19 / 25), demo_result ''1'' (14 / 25), demo_result ''3'' (9 / 25)]"
    by code_simp
  show ?thesis
    using r w
      fuse_ids_distinct [OF len,
        of "ResultFusion_init (default_hybrid_config\<lparr>cfg_fusion_strategy := Some ''rrf''\<rparr>)"]
      fuse_ids_distinct [OF len,
        of "ResultFusion_init (default_hybrid_config\<lparr>cfg_normalize_scores := Some False\<rparr>)"]
    by simp
qed

section \<open>Batch embedding with the cache\<close>

text \<open>
  The first loop splits the positions \<open>0, \<dots>, n - 1\<close> of the input into the hits,
  with their cached vectors, and the misses, each in input order.
\<close>

lemma check_cache_filter:
  "check_cache g i ts (c, ut, ui) =
     (c @ map (\<lambda>(j, t). (j, the (embedding_cache g t)))
            (filter (\<lambda>(j, t). cache_hit g t) (zip [i ..< i + length ts] ts)),
      ut @ map snd (filter (\<lambda>(j, t). \<not> cache_hit g t) (zip [i ..< i + length ts] ts)),
      ui @ map fst (filter (\<lambda>(j, t). \<not> cache_hit g t) (zip [i ..< i + length ts] ts)))"
proof (induction ts arbitrary: i c ut ui)
  case Nil
  then show ?case by simp
next
  case (Cons t ts)
  have upt: "[i ..< i + length (t # ts)] = i # [Suc i ..< Suc i + length ts]"
    using upt_conv_Cons [of i "i + length (t # ts)"] by simp
  show ?case
  proof (cases "cache_hit g t")
    case True
    then obtain e where e: "embedding_cache g t = Some e" and en: "cache_enabled g"
      by (auto simp: cache_hit_def)
    show ?thesis
      unfolding upt using True e en by (simp add: Cons.IH)
  next
    case False
    then have "(if cache_enabled g then embedding_cache g t else None) = None"
      by (auto simp: cache_hit_def)
    then show ?thesis
      unfolding upt using False by (simp add: Cons.IH)
  qed
qed

text \<open>
  Rows of the embedding dimension are stored without an error, and a position
  that is written holds the vector of the text at that position.
\<close>

lemma assign_rows_fold:
  "(\<forall>(j, e) \<in> set ps. j < length embs \<and> length e = n) \<Longrightarrow>
   assign_rows n ps embs = Inr (fold (\<lambda>(j, e) a. a[j := e]) ps embs)"
proof (induction ps arbitrary: embs)
  case Nil
  then show ?case by simp
next
  case (Cons p ps)
  obtain j e where p: "p = (j, e)" by (cases p)
  have ok: "j < length embs" "length e = n" using Cons.prems by (simp_all add: p)
  have rest: "\<forall>(j', e') \<in> set ps. j' < length (embs[j := e]) \<and> length e' = n"
    using Cons.prems by simp
  show ?case
    using ok Cons.IH [OF rest] by (simp add: p set_row_def)
qed

lemma length_fold_update:
  "length (fold (\<lambda>(j, e) a. a[j := e]) ps embs) = length embs"
  by (induction ps arbitrary: embs) (auto simp: case_prod_beta)

lemma fold_update_nth:
  assumes "\<forall>(j, t) \<in> set qs. t = texts ! j" and "m < length a"
  shows "fold (\<lambda>(j, e) a. a[j := e]) (map (\<lambda>(j, t). (j, f t)) qs) a ! m
           = (if m \<in> fst ` set qs then f (texts ! m) else a ! m)"
  using assms
proof (induction qs arbitrary: a)
  case Nil
  then show ?case by simp
next
  case (Cons q qs)
  obtain j t where q: "q = (j, t)" by (cases q)
  have t: "t = texts ! j" using Cons.prems(1) by (simp add: q)
  have rest: "\<forall>(j, t) \<in> set qs. t = texts ! j" using Cons.prems(1) by simp
  have len: "m < length (a[j := f t])" using Cons.prems(2) by simp
  show ?case
    using Cons.IH [OF rest len] Cons.prems(2) t by (auto simp: q nth_list_update)
qed

lemma zip_upt_consistent:
  "\<forall>(j, t) \<in> set (filter P (zip [0 ..< length texts] texts)). t = texts ! j"
  by (auto simp: set_zip)

lemma zip_upt_indices:
  "fst ` set (filter (\<lambda>(j, t). Q t) (zip [0 ..< length texts] texts))
     = {j. j < length texts \<and> Q (texts ! j)}"
  by (force simp: set_zip image_iff)

lemma filter_zip_snd:
  "map snd (filter (\<lambda>(j, t). Q t) (zip [i ..< i + length ts] ts)) = filter Q ts"
proof (induction ts arbitrary: i)
  case Nil
  then show ?case by simp
next
  case (Cons t ts)
  have upt: "[i ..< i + length (t # ts)] = i # [Suc i ..< Suc i + length ts]"
    using upt_conv_Cons [of i "i + length (t # ts)"] by simp
  show ?case unfolding upt using Cons.IH [of "Suc i"] by simp
qed


lemma zip_map_fst_snd:
  "zip (map fst qs) (map f (map snd qs)) = map (\<lambda>(j, t). (j, f t)) qs"
  by (induction qs) auto

lemma zip_upt_bound:
  "(j, t) \<in> set (zip [0 ..< length texts] texts) \<Longrightarrow> j < length texts"
  by (auto simp: set_zip)

text \<open>
  C8. Let the cache be in a state that the generator can reach (a disabled cache
  is empty, and every cached vector has the embedding dimension), and let the
  model embed each text of a batch by one function \<open>embed_text\<close> into vectors of
  the embedding dimension. Then, for every list of texts, \<^verbatim>\<open>encode_batch\<close>
  returns one embedding per text, position \<open>i\<close> holding the cached vector of
  \<open>texts[i]\<close> when the cache has one and the model's embedding of \<open>texts[i]\<close>
  otherwise; and the model is invoked at most once, on exactly the texts that
  the cache does not hold, in input order.
\<close>

theorem encode_batch_order:
  assumes inv: "cache_enabled g \<or> embedding_cache g = Map.empty"
    and dims: "\<forall>t v. embedding_cache g t = Some v \<longrightarrow> length v = embedding_dim g"
    and model: "\<forall>ts. encode_many ts = map embed_text ts"
    and mdim: "\<forall>t. length (embed_text t) = embedding_dim g"
  shows "\<exists>g'. encode_batch encode_many g texts =
      Inr (map (\<lambda>t. case embedding_cache g t of Some v \<Rightarrow> v | None \<Rightarrow> embed_text t) texts, g',
           (if filter (\<lambda>t. embedding_cache g t = None) texts = [] then []
            else [filter (\<lambda>t. embedding_cache g t = None) texts]))"
proof -
  let ?n = "length texts"
  let ?d = "embedding_dim g"
  let ?ps = "zip [0 ..< ?n] texts"
  let ?hits = "filter (\<lambda>(j, t). cache_hit g t) ?ps"
  let ?miss = "filter (\<lambda>(j, t). \<not> cache_hit g t) ?ps"
  let ?cached = "map (\<lambda>(j, t). (j, the (embedding_cache g t))) ?hits"
  let ?missing = "filter (\<lambda>t. embedding_cache g t = None) texts"
  let ?upd = "\<lambda>(j, e) a. a[j := e]"
  let ?zeros = "replicate ?n (replicate ?d (0::real))"
  let ?F = "\<lambda>t. case embedding_cache g t of Some v \<Rightarrow> v | None \<Rightarrow> embed_text t"
  have cache_hit_iff: "cache_hit g t \<longleftrightarrow> embedding_cache g t \<noteq> None" for t
    using inv by (auto simp: cache_hit_def)
  have cc: "check_cache g 0 texts ([], [], []) = (?cached, map snd ?miss, map fst ?miss)"
    using check_cache_filter [of g 0 texts "[]" "[]" "[]"] by simp
  have uts: "map snd ?miss = ?missing"
    using filter_zip_snd [of "\<lambda>t. \<not> cache_hit g t" 0 texts] by (simp add: cache_hit_iff)
  have new: "(if ?missing \<noteq> [] then encode_many ?missing else []) = map embed_text ?missing"
    using model by simp
  have zp: "zip (map fst ?miss) (map embed_text ?missing) = map (\<lambda>(j, t). (j, embed_text t)) ?miss"
    using zip_map_fst_snd [of ?miss embed_text] by (simp only: uts)
  have c_ok: "\<forall>(j, e) \<in> set ?cached. j < length ?zeros \<and> length e = ?d"
  proof (clarsimp)
    fix j t
    assume jt: "(j, t) \<in> set ?ps" and h: "cache_hit g t"
    obtain v where v: "embedding_cache g t = Some v" using h by (auto simp: cache_hit_def)
    show "j < ?n \<and> length (the (embedding_cache g t)) = ?d"
      using zip_upt_bound [OF jt] dims v by simp
  qed
  let ?e1 = "fold ?upd ?cached ?zeros"
  have a1: "assign_rows ?d ?cached ?zeros = Inr ?e1"
    by (rule assign_rows_fold [OF c_ok])
  have len1: "length ?e1 = ?n" by (simp add: length_fold_update)
  let ?new = "map (\<lambda>(j, t). (j, embed_text t)) ?miss"
  have m_ok: "\<forall>(j, e) \<in> set ?new. j < length ?e1 \<and> length e = ?d"
  proof (clarsimp simp: len1)
    fix j t
    assume jt: "(j, t) \<in> set ?ps"
    show "j < ?n \<and> length (embed_text t) = ?d"
      using zip_upt_bound [OF jt] mdim by simp
  qed
  let ?e2 = "fold ?upd ?new ?e1"
  have a2: "assign_rows ?d ?new ?e1 = Inr ?e2"
    by (rule assign_rows_fold [OF m_ok])
  have len2: "length ?e2 = ?n" by (simp add: length_fold_update)
  have nth2: "?e2 ! m = ?F (texts ! m)" if m: "m < ?n" for m
  proof -
    have e1m: "?e1 ! m = (if m \<in> fst ` set ?hits then the (embedding_cache g (texts ! m)) else ?zeros ! m)"
      using fold_update_nth [OF zip_upt_consistent, of m ?zeros "\<lambda>t. the (embedding_cache g t)" "\<lambda>(j, t). cache_hit g t" texts] m
      by simp
    have e2m: "?e2 ! m = (if m \<in> fst ` set ?miss then embed_text (texts ! m) else ?e1 ! m)"
      using fold_update_nth [OF zip_upt_consistent, of m ?e1 embed_text "\<lambda>(j, t). \<not> cache_hit g t" texts] m len1
      by simp
    have ih: "m \<in> fst ` set ?hits \<longleftrightarrow> cache_hit g (texts ! m)"
      using zip_upt_indices [of "cache_hit g" texts] m by simp
    have im: "m \<in> fst ` set ?miss \<longleftrightarrow> \<not> cache_hit g (texts ! m)"
      using zip_upt_indices [of "\<lambda>t. \<not> cache_hit g t" texts] m by simp
    show ?thesis
    proof (cases "cache_hit g (texts ! m)")
      case True
      then obtain v where "embedding_cache g (texts ! m) = Some v" by (auto simp: cache_hit_def)
      then show ?thesis using True e1m e2m ih im by simp
    next
      case False
      then have "embedding_cache g (texts ! m) = None" using cache_hit_iff by simp
      then show ?thesis using False e2m im by simp
    qed
  qed
  have res: "?e2 = map ?F texts"
    by (rule nth_equalityI) (simp_all add: len2 nth2)
  show ?thesis
    unfolding encode_batch_def cc
    by (simp only: prod.case Let_def uts new zp a1 a2 sum.case res) (simp add: Let_def)
qed


text \<open>
  The two conditions on the cache hold after \<^verbatim>\<open>__init__\<close> and are kept by
  \<^verbatim>\<open>encode\<close> and by \<^verbatim>\<open>encode_batch\<close>.
\<close>

lemma init_cache_invariants:
  "(cache_enabled (EmbeddingGenerator_init bs d ce)
      \<or> embedding_cache (EmbeddingGenerator_init bs d ce) = Map.empty)
   \<and> (\<forall>t v. embedding_cache (EmbeddingGenerator_init bs d ce) t = Some v \<longrightarrow>
          length v = embedding_dim (EmbeddingGenerator_init bs d ce))"
  by (simp add: EmbeddingGenerator_init_def)

lemma encode_keeps_invariants:
  assumes "cache_enabled g \<or> embedding_cache g = Map.empty"
    and "\<forall>t v. embedding_cache g t = Some v \<longrightarrow> length v = embedding_dim g"
    and "\<forall>t. length (encode_one t) = embedding_dim g"
    and "encode encode_one g x = (e, g')"
  shows "(cache_enabled g' \<or> embedding_cache g' = Map.empty)
         \<and> (\<forall>t v. embedding_cache g' t = Some v \<longrightarrow> length v = embedding_dim g')"
  using assms by (auto simp: encode_def Let_def split: option.splits if_splits)

lemma cache_store_values:
  "cache_store c pairs x = Some v \<Longrightarrow> c x = Some v \<or> v \<in> snd ` set pairs"
  unfolding cache_store_def
proof (induction pairs arbitrary: c)
  case Nil
  then show ?case by simp
next
  case (Cons p pairs)
  obtain t e where p: "p = (t, e)" by (cases p)
  have "(c(t \<mapsto> e)) x = Some v \<or> v \<in> snd ` set pairs"
    using Cons.IH [of "c(t \<mapsto> e)"] Cons.prems by (simp add: p)
  then show ?case by (auto simp: p split: if_splits)
qed

lemma encode_batch_keeps_invariants:
  assumes inv: "cache_enabled g \<or> embedding_cache g = Map.empty"
    and dims: "\<forall>t v. embedding_cache g t = Some v \<longrightarrow> length v = embedding_dim g"
    and model: "\<forall>ts. encode_many ts = map embed_text ts"
    and mdim: "\<forall>t. length (embed_text t) = embedding_dim g"
    and run: "encode_batch encode_many g texts = Inr (embs, g', calls)"
  shows "(cache_enabled g' \<or> embedding_cache g' = Map.empty)
         \<and> (\<forall>t v. embedding_cache g' t = Some v \<longrightarrow> length v = embedding_dim g')"
proof -
  obtain c ut ui where cc: "check_cache g 0 texts ([], [], []) = (c, ut, ui)"
    by (cases "check_cache g 0 texts ([], [], [])") auto
  have g': "g' = g \<or> (cache_enabled g \<and>
      g' = g\<lparr>embedding_cache := cache_store (embedding_cache g) (zip ut (encode_many ut))\<rparr>)"
    using run by (auto simp: encode_batch_def cc Let_def split: sum.splits if_splits)
  show ?thesis
  proof (cases "g' = g")
    case True
    then show ?thesis using inv dims by simp
  next
    case False
    then have en: "cache_enabled g"
      and eq: "g' = g\<lparr>embedding_cache := cache_store (embedding_cache g) (zip ut (encode_many ut))\<rparr>"
      using g' by auto
    have "length v = embedding_dim g"
      if "cache_store (embedding_cache g) (zip ut (encode_many ut)) t = Some v" for t v
    proof -
      have "embedding_cache g t = Some v \<or> v \<in> snd ` set (zip ut (encode_many ut))"
        using cache_store_values [OF that] .
      then show ?thesis
      proof
        assume "embedding_cache g t = Some v"
        then show ?thesis using dims by simp
      next
        assume "v \<in> snd ` set (zip ut (encode_many ut))"
        then have "v \<in> set (map embed_text ut)"
          using model by (auto dest: set_zip_rightD)
        then show ?thesis using mdim by auto
      qed
    qed
    then show ?thesis using en by (simp add: eq)
  qed
qed

theorem encode_batch_order_witness:
  "\<exists>g'. encode_batch demo_encode (demo_generator\<lparr>embedding_cache := [''b'' \<mapsto> [7, 7]]\<rparr>)
           [''a'', ''b'', ''cc'']
         = Inr ([[1, 1], [7, 7], [2, 1]], g', [[''a'', ''cc'']])"
  using encode_batch_order [of "demo_generator\<lparr>embedding_cache := [''b'' \<mapsto> [7, 7]]\<rparr>"
      demo_encode "\<lambda>t. [real (length t), 1]" "[''a'', ''b'', ''cc'']"]
  by (simp add: demo_generator_def EmbeddingGenerator_init_def get_default_def demo_encode_def)

end
